theory Spec2Isabelle
  imports Main "HOL-Library.Word" "HOL-Library.AList"
begin

unbundle bit_operations_syntax

text \<open>
  The write batch of tracedb (\<^verbatim>\<open>batch.go\<close>): the internal key codec, the batch buffer
  and its deduplication, staging into the memdb (\<^verbatim>\<open>mput\<close>, \<^verbatim>\<open>Write\<close>), the commit
  walk over the memdb (\<^verbatim>\<open>commit\<close>) and the writer gate. Go functions are total
  functions on explicit state; an error result is an \<open>error option\<close> beside the state, a
  panic is an error value, and a call that blocks is the result \<open>None\<close>.
\<close>

section \<open>Machine types\<close>

type_synonym byte = "8 word"
type_synonym u16 = "16 word"
type_synonym u32 = "32 word"
type_synonym u64 = "64 word"
type_synonym bytes = "byte list"

text \<open>
  Errors of the package. The sentinel values \<open>errKeyEmpty\<close> ... are declared outside
  \<^verbatim>\<open>batch.go\<close>; only their identity matters here. A Go panic is an error value of
  its own, carrying the message.
\<close>

datatype error =
    errKeyEmpty
  | errKeyTooLarge
  | errValueTooLarge
  | errFull
  | errKeyExpired
  | errBatchSeqComplete
  | errIO nat
  | panic string

section \<open>Internal key codec\<close>

text \<open>
  \<^verbatim>\<open>keyMaxSeq = (uint64(1) << 56) - 1\<close>
\<close>

definition keyMaxSeq :: u64 where
  "keyMaxSeq = push_bit 56 1 - 1"

text \<open>
  \<^verbatim>\<open>binary.LittleEndian.PutUint64 / PutUint32\<close>: byte \<open>i\<close> is \<open>byte(v >> (8*i))\<close>.
  \<open>le_put n v\<close> gives the \<open>n\<close> low bytes of \<open>v\<close>, least significant first.
\<close>

fun le_put :: "nat \<Rightarrow> 'a::len word \<Rightarrow> bytes" where
  "le_put 0 v = []"
| "le_put (Suc n) v = ucast v # le_put n (drop_bit 8 v)"

text \<open>
  \<^verbatim>\<open>binary.LittleEndian.Uint64 / Uint32\<close>: the sum of \<open>b[i] << (8*i)\<close>.
\<close>

fun le_get :: "bytes \<Rightarrow> 'a::len word" where
  "le_get [] = 0"
| "le_get (b # bs) = ucast b OR push_bit 8 (le_get bs)"

text \<open>
  Modelled from the spec: \<^verbatim>\<open>ensureBuffer\<close> is not among the sources at hand. The spec's encode
  yields the user key followed by a 12-byte tail, so the buffer that
  \<^verbatim>\<open>makeInternalKey\<close> fills has exactly \<open>n\<close> bytes: the first \<open>n\<close> bytes of
  \<open>dst\<close>'s storage when that is large enough, a fresh zeroed buffer otherwise.
  \<open>dst\<close> stands for the whole backing storage of the slice.
\<close>

definition ensureBuffer :: "bytes \<Rightarrow> nat \<Rightarrow> bytes" where
  "ensureBuffer b n = (if length b < n then replicate n 0 else take n b)"

text \<open>
  \<^verbatim>\<open>copy(dst, src)\<close> overwrites the first \<open>min(len(dst), len(src))\<close> bytes of \<open>dst\<close>.
\<close>

definition copy_into :: "bytes \<Rightarrow> bytes \<Rightarrow> bytes" where
  "copy_into dst src = take (length dst) src @ drop (length src) dst"

text \<open>
  Writing \<open>src\<close> into \<open>dst\<close> from offset \<open>off\<close> on, as \<^verbatim>\<open>PutUint64(dst[off:off+8], v)\<close>
  and \<^verbatim>\<open>PutUint32(dst[off:], v)\<close> do.
\<close>

definition put_at :: "bytes \<Rightarrow> nat \<Rightarrow> bytes \<Rightarrow> bytes" where
  "put_at dst off src = take off dst @ copy_into (drop off dst) src"

definition makeInternalKey :: "bytes \<Rightarrow> bytes \<Rightarrow> u64 \<Rightarrow> bool \<Rightarrow> u32 \<Rightarrow> error + bytes" where
  "makeInternalKey dst ukey seq dFlag expiresAt =
     (if seq > keyMaxSeq then Inl (panic ''tracedb: invalid sequence number'')
      else
        let dBit = (if dFlag then 1 else 0) :: u64;
            dst1 = ensureBuffer dst (length ukey + 12);
            dst2 = copy_into dst1 ukey;
            dst3 = put_at dst2 (length ukey) (le_put 8 (push_bit 8 seq OR dBit));
            dst4 = put_at dst3 (length ukey + 8) (le_put 4 expiresAt)
        in Inr dst4)"

text \<open>
  \<^verbatim>\<open>parseInternalKey\<close> has named results. On a short blob it logs and executes a bare
  \<^verbatim>\<open>return\<close>: every result, \<open>err\<close> included, keeps its zero value.
\<close>

definition parseInternalKey :: "bytes \<Rightarrow> bytes \<times> u64 \<times> bool \<times> u32 \<times> error option" where
  "parseInternalKey ik =
     (if length ik < 12 then ([], 0, False, 0, None)
      else
        let expiresAt = le_get (drop (length ik - 4) ik) :: u32;
            num = le_get (take 8 (drop (length ik - 12) ik)) :: u64;
            seq = drop_bit 8 num;
            dFlag = (num AND 0xff \<noteq> 0);
            ukey = take (length ik - 12) ik
        in (ukey, seq, dFlag, expiresAt, None))"


section \<open>The batch\<close>

record batchIndex =
  delFlag :: bool
  hash :: u32
  keySize :: u16
  valueSize :: u32
  expiresAt :: u32
  kvOffset :: int

text \<open>The zero value of the struct, as \<^verbatim>\<open>make([]batchIndex, n)\<close> fills a slice with.\<close>

definition zero_batchIndex :: batchIndex where
  "zero_batchIndex =
     \<lparr>delFlag = False, hash = 0, keySize = 0, valueSize = 0, expiresAt = 0, kvOffset = 0\<rparr>"

subsection \<open>Deduplication\<close>

text \<open>
  A Go map is kept as an association list with distinct keys: \<open>map_of\<close> is the lookup,
  \<open>AList.update\<close> the store and \<open>length\<close> is \<^verbatim>\<open>len\<close>.

  First loop of \<^verbatim>\<open>uniq\<close>: the index is walked from its last entry to its first (the
  argument is the reversed index); a hash not yet in \<^verbatim>\<open>unique_set\<close> is given the
  next number \<open>i\<close> and its entry is remembered in \<^verbatim>\<open>index_set\<close>.
\<close>

fun uniq_scan ::
  "batchIndex list \<Rightarrow> (u32 \<times> int) list \<times> (u32 \<times> batchIndex) list \<times> int \<Rightarrow>
   (u32 \<times> int) list \<times> (u32 \<times> batchIndex) list \<times> int" where
  "uniq_scan [] st = st"
| "uniq_scan (x # xs) (unique_set, index_set, i) =
     (case map_of unique_set (hash x) of
        None \<Rightarrow> uniq_scan xs
                 (AList.update (hash x) i unique_set, AList.update (hash x) x index_set, i + 1)
      | Some _ \<Rightarrow> uniq_scan xs (unique_set, index_set, i))"

text \<open>
  \<^verbatim>\<open>pendingWrites[j] = v\<close>: Go panics when \<open>j\<close> is out of range.
\<close>

definition store_at :: "'a list \<Rightarrow> int \<Rightarrow> 'a \<Rightarrow> 'a list option" where
  "store_at xs j v = (if 0 \<le> j \<and> j < int (length xs) then Some (xs[nat j := v]) else None)"

text \<open>
  Second loop of \<^verbatim>\<open>uniq\<close>: \<^verbatim>\<open>for x, i := range unique_set\<close>. Go enumerates the
  entries of a map in an unspecified order; the first argument is the order taken.
  \<^verbatim>\<open>index_set[x]\<close> is the zero value for a missing key. \<open>n\<close> is
  \<^verbatim>\<open>len(unique_set)\<close>.
\<close>

fun uniq_fill ::
  "(u32 \<times> int) list \<Rightarrow> nat \<Rightarrow> (u32 \<times> batchIndex) list \<Rightarrow> batchIndex list \<Rightarrow>
   batchIndex list option" where
  "uniq_fill [] n index_set pendingWrites = Some pendingWrites"
| "uniq_fill ((x, i) # rest) n index_set pendingWrites =
     (case store_at pendingWrites (int n - i - 1)
             (case map_of index_set x of None \<Rightarrow> zero_batchIndex | Some v \<Rightarrow> v) of
        None \<Rightarrow> None
      | Some pw \<Rightarrow> uniq_fill rest n index_set pw)"

text \<open>
  \<open>range_order m ord\<close>: \<open>ord\<close> is an order in which \<^verbatim>\<open>range\<close> may enumerate the
  map \<open>m\<close>, each entry once.
\<close>

definition range_order :: "('k \<times> 'v) list \<Rightarrow> ('k \<times> 'v) list \<Rightarrow> bool" where
  "range_order m ord \<longleftrightarrow> distinct (map fst ord) \<and> set ord = set m"

definition unique_set_of :: "batchIndex list \<Rightarrow> (u32 \<times> int) list" where
  "unique_set_of idx = fst (uniq_scan (rev idx) ([], [], 0))"

text \<open>
  \<^verbatim>\<open>uniq\<close> on the index of the batch. \<open>None\<close> is a panic (a store out of range).
\<close>

definition uniq :: "(u32 \<times> int) list \<Rightarrow> batchIndex list \<Rightarrow> batchIndex list option" where
  "uniq ord idx =
     (case uniq_scan (rev idx) ([], [], 0) of
        (unique_set, index_set, i) \<Rightarrow>
          uniq_fill ord (length unique_set) index_set
            (replicate (length unique_set) zero_batchIndex))"

text \<open>
  The entries that are the last of their hash, in the order of the index. Used to state
  and prove what \<open>uniq\<close> returns.
\<close>

fun keep_last :: "batchIndex list \<Rightarrow> batchIndex list" where
  "keep_last [] = []"
| "keep_last (x # xs) = (if hash x \<in> hash ` set xs then keep_last xs else x # keep_last xs)"

text \<open>
  The entries first seen for their hash when a list is read from its head, \<open>seen\<close>
  holding the hashes met before.
\<close>

fun keep_first :: "u32 set \<Rightarrow> batchIndex list \<Rightarrow> batchIndex list" where
  "keep_first seen [] = []"
| "keep_first seen (y # ys) =
     (if hash y \<in> seen then keep_first seen ys else y # keep_first (insert (hash y) seen) ys)"


text \<open>
  The state of the first loop after the entries \<open>es\<close> have been taken up, in that order.
\<close>

definition scan_state :: "batchIndex list \<Rightarrow> (u32 \<times> int) list \<times> (u32 \<times> batchIndex) list \<times> int" where
  "scan_state es = (zip (map hash es) (map int [0..<length es]), map (\<lambda>e. (hash e, e)) es, int (length es))"


text \<open>
  An index for the examples: the hashes 1, 2, 1, 3, 2 in the order of the appends; the key
  size tells the two entries of a hash apart.
\<close>

definition ex_entry :: "u32 \<Rightarrow> u16 \<Rightarrow> batchIndex" where
  "ex_entry h k = zero_batchIndex\<lparr>hash := h, keySize := k\<rparr>"

definition ex_index :: "batchIndex list" where
  "ex_index = [ex_entry 1 10, ex_entry 2 20, ex_entry 1 11, ex_entry 3 30, ex_entry 2 21]"

section \<open>The memdb\<close>

text \<open>
  What \<^verbatim>\<open>memdb.put\<close> is handed: the key hash, the internal key, the value and the
  expiry.
\<close>

record mrecord =
  m_hash :: u32
  m_key :: bytes
  m_value :: bytes
  m_expiresAt :: u32

text \<open>
  Modelled from the spec: the memdb type is not among the sources at hand. The spec gives it a bucket
  table, \<open>count\<close>, a monotonic \<open>seq\<close> counter and \<open>nBuckets\<close>, with a reference count.
  The content of the table is kept as the records inserted, oldest first.
\<close>

record memdb =
  seq :: u64
  mem_count :: nat
  nBuckets :: nat
  table :: "mrecord list"
  ref :: int

section \<open>The persistent index\<close>

text \<open>
  Modelled from the spec: the slot and bucket types are not among the sources at hand. A slot is
  \<open>(hash, keySize, valueSize, expiresAt, kvOffset)\<close> and is empty when \<open>kvOffset = 0\<close>;
  a bucket handle has its array of \<open>entriesPerBucket\<close> slots, the offset \<open>next\<close> of its
  overflow bucket (0 for none) and its own offset. The field \<open>next\<close> is written
  \<open>bnext\<close>.
\<close>

record entry =
  e_hash :: u32
  e_keySize :: u16
  e_valueSize :: u32
  e_expiresAt :: u32
  e_kvOffset :: int

record bucketHandle =
  entries :: "entry list"
  bnext :: int
  offset :: int

definition zero_entry :: entry where
  "zero_entry = \<lparr>e_hash = 0, e_keySize = 0, e_valueSize = 0, e_expiresAt = 0, e_kvOffset = 0\<rparr>"

text \<open>
  Modelled from the spec: the DB type is not among the sources at hand. Of the database the batch uses
  \<^item> \<open>writeLockC\<close>, the writer gate: a channel that the spec describes as a 1-slot gate;
    the field holds the number of tokens in its buffer;
  \<^item> \<open>db_count\<close>, the number of keys (\<^verbatim>\<open>db.count\<close>);
  \<^item> \<open>buckets\<close>, the bucket index: for each bucket number the chain of handles reached
    by following \<open>next\<close>, in that order;
  \<^item> \<open>payload\<close> and \<open>freed\<close>, the data region: the key/value pair stored at an offset,
    and the spans handed to \<^verbatim>\<open>data.free\<close>, latest first;
  \<^item> \<open>db_filter\<close>, the presence filter (\<^verbatim>\<open>db.filter\<close>): the hashes for which \<^verbatim>\<open>Test\<close> answers true;
  \<^item> \<open>Dels\<close> and \<open>Puts\<close>, the counters of \<^verbatim>\<open>db.metrics\<close>;
  \<^item> \<open>syncWrites\<close>.
  The mutex \<^verbatim>\<open>db.mu\<close> is taken on entry to \<^verbatim>\<open>commit\<close> and released on every
  return; it has no part in a sequential run and is left out.
\<close>

record DB =
  writeLockC :: nat
  db_count :: int
  buckets :: "nat \<Rightarrow> bucketHandle list"
  payload :: "int \<Rightarrow> (bytes \<times> bytes) option"
  freed :: "(u32 \<times> int) list"
  db_filter :: "u64 set"
  Dels :: int
  Puts :: int
  syncWrites :: bool

text \<open>
  Constants and collaborators that \<^verbatim>\<open>batch.go\<close> uses and that are declared in files
  not at hand. Each is a value or a function that reads the state; the theorems hold for every
  value of them.
  \<^item> \<open>MaxKeyLength\<close>, \<open>MaxValueLength\<close>, \<open>MaxKeys\<close>: the limits tested by \<^verbatim>\<open>mput\<close> and
    \<^verbatim>\<open>commit\<close>;
  \<^item> \<open>mem_hash\<close>, \<open>db_hash\<close>: \<^verbatim>\<open>memdb.hash\<close> and \<^verbatim>\<open>db.hash\<close>;
  \<^item> \<open>mem_bucketIndex\<close>, \<open>db_bucketIndex\<close>: the bucket number of a hash;
  \<^item> \<open>mem_chain\<close>: the chain of handles of a memdb bucket, as
    \<^verbatim>\<open>memdb.forEachBucket\<close> presents it;
  \<^item> \<open>mem_readKeyValue\<close>: \<^verbatim>\<open>memdb.data.readKeyValue\<close>;
  \<^item> \<open>put_err\<close>, \<open>split_err\<close>, \<open>readKey_err\<close>, \<open>write_err\<close>, \<open>writeKeyValue_err\<close>,
    \<open>overflow_err\<close>, \<open>sync_err\<close>: whether a call of \<^verbatim>\<open>memdb.put\<close>, \<^verbatim>\<open>memdb.split\<close>,
    \<^verbatim>\<open>data.readKey\<close>, \<^verbatim>\<open>bucketHandle.write\<close>, \<^verbatim>\<open>data.writeKeyValue\<close>,
    \<^verbatim>\<open>db.createOverflowBucket\<close> or \<^verbatim>\<open>db.sync\<close> fails, and with what error;
  \<^item> \<open>alloc\<close>: the offset at which \<^verbatim>\<open>data.writeKeyValue\<close> places a payload of a given
    size; \<open>new_offset\<close>: the offset of a new overflow bucket;
  \<^item> \<open>loadExceeded\<close>: the load test of \<^verbatim>\<open>mput\<close>,
    \<^verbatim>\<open>float64(count)/float64(nBuckets*entriesPerBucket) > loadFactor\<close>, a floating-point
    comparison against constants that are not among the sources at hand;
  \<^item> \<open>entriesPerBucket\<close>: the number of slots of a new bucket;
  \<^item> \<open>unix_after\<close>: \<^verbatim>\<open>time.Now().Add(ttl).Unix()\<close>.
\<close>

record env =
  MaxKeyLength :: nat
  MaxValueLength :: nat
  MaxKeys :: int
  entriesPerBucket :: nat
  mem_hash :: "bytes \<Rightarrow> u32"
  db_hash :: "bytes \<Rightarrow> u32"
  mem_bucketIndex :: "memdb \<Rightarrow> u32 \<Rightarrow> nat"
  db_bucketIndex :: "DB \<Rightarrow> u32 \<Rightarrow> nat"
  mem_chain :: "memdb \<Rightarrow> nat \<Rightarrow> bucketHandle list"
  mem_readKeyValue :: "memdb \<Rightarrow> entry \<Rightarrow> error + (bytes \<times> bytes)"
  put_err :: "memdb \<Rightarrow> mrecord \<Rightarrow> error option"
  split_err :: "memdb \<Rightarrow> error option"
  readKey_err :: "DB \<Rightarrow> entry \<Rightarrow> error option"
  write_err :: "DB \<Rightarrow> bucketHandle \<Rightarrow> error option"
  writeKeyValue_err :: "DB \<Rightarrow> bytes \<Rightarrow> bytes \<Rightarrow> error option"
  overflow_err :: "DB \<Rightarrow> error option"
  sync_err :: "DB \<Rightarrow> error option"
  alloc :: "DB \<Rightarrow> nat \<Rightarrow> int"
  new_offset :: "DB \<Rightarrow> int"
  loadExceeded :: "memdb \<Rightarrow> bool"
  unix_after :: "int \<Rightarrow> int"

text \<open>
  Modelled from the spec: \<^verbatim>\<open>memdb.put\<close> is not among the sources at hand. The spec has it insert the
  entry into the bucket table; it leaves \<open>seq\<close> alone (step 6 of the spec's staging is what
  increments it). A failing call leaves the memdb as it was.
\<close>

definition mem_put :: "env \<Rightarrow> memdb \<Rightarrow> u32 \<Rightarrow> bytes \<Rightarrow> bytes \<Rightarrow> u32 \<Rightarrow> error + memdb" where
  "mem_put env m h k v e =
     (let r = \<lparr>m_hash = h, m_key = k, m_value = v, m_expiresAt = e\<rparr>
      in case put_err env m r of
           Some er \<Rightarrow> Inl er
         | None \<Rightarrow> Inr (m\<lparr>table := table m @ [r], mem_count := mem_count m + 1\<rparr>))"

text \<open>
  Modelled from the spec: \<^verbatim>\<open>memdb.split\<close> is not among the sources at hand. The spec has the table
  grow by splitting a bucket; the records and \<open>seq\<close> stay.
\<close>

definition mem_split :: "env \<Rightarrow> memdb \<Rightarrow> error + memdb" where
  "mem_split env m =
     (case split_err env m of
        Some er \<Rightarrow> Inl er
      | None \<Rightarrow> Inr (m\<lparr>nBuckets := nBuckets m + 1\<rparr>))"

section \<open>Batch operations\<close>

text \<open>
  The batch. \<open>mem\<close> is the memdb the batch points to, \<open>None\<close> for nil. \<open>data\<close> is
  the slice up to its length; the spare capacity that \<^verbatim>\<open>grow\<close> manages holds no
  content. The database \<^verbatim>\<open>b.db\<close> is passed beside the batch.
\<close>

record Batch =
  managed :: bool
  batchSeq :: u64
  data :: bytes
  index :: "batchIndex list"
  firstKeyHash :: u32
  mem :: "memdb option"
  internalLen :: u32

definition kvSize :: "batchIndex \<Rightarrow> u32" where
  "kvSize ix = ucast (keySize ix) + valueSize ix"

text \<open>
  \<^verbatim>\<open>d[lo:hi]\<close>; \<open>None\<close> is the panic for bounds out of range. The bound is the length
  of the slice, where Go allows up to its capacity.
\<close>

definition slice :: "'a list \<Rightarrow> int \<Rightarrow> int \<Rightarrow> 'a list option" where
  "slice d lo hi =
     (if 0 \<le> lo \<and> lo \<le> hi \<and> hi \<le> int (length d)
      then Some (take (nat hi - nat lo) (drop (nat lo) d)) else None)"

definition kv :: "batchIndex \<Rightarrow> bytes \<Rightarrow> (bytes \<times> bytes) option" where
  "kv ix d =
     (case slice d (kvOffset ix) (kvOffset ix + int (unat (kvSize ix))) of
        None \<Rightarrow> None
      | Some keyValue \<Rightarrow>
          if unat (keySize ix) \<le> length keyValue
          then Some (take (unat (keySize ix)) keyValue, drop (unat (keySize ix)) keyValue)
          else None)"

text \<open>
  \<^verbatim>\<open>appendRec\<close>. The record is the flag byte, the key and, for a put, the value;
  \<^verbatim>\<open>uint16(len(key))\<close> and \<^verbatim>\<open>uint32(len(value))\<close> truncate. The function assigns
  \<open>data\<close>, \<open>index\<close> and \<open>internalLen\<close> and nothing else.
\<close>

definition appendRec :: "env \<Rightarrow> bool \<Rightarrow> u32 \<Rightarrow> bytes \<Rightarrow> bytes \<Rightarrow> Batch \<Rightarrow> Batch" where
  "appendRec env dFlag ex key val b =
     (let ix0 = zero_batchIndex\<lparr>delFlag := dFlag, hash := mem_hash env key,
                                 keySize := of_nat (length key)\<rparr>;
          off = length (data b);
          flag = (if dFlag then 1 else 0) :: byte;
          ix1 = ix0\<lparr>kvOffset := int (off + 1)\<rparr>;
          ix2 = (if \<not> dFlag then ix1\<lparr>valueSize := of_nat (length val)\<rparr> else ix1);
          data' = data b @ [flag] @ key @ (if \<not> dFlag then val else []);
          ix3 = ix2\<lparr>expiresAt := ex\<rparr>
      in b\<lparr>data := data', index := index b @ [ix3],
            internalLen := internalLen b + (ucast (keySize ix3) + valueSize ix3 + 8)\<rparr>)"

definition PutWithTTL :: "env \<Rightarrow> bytes \<Rightarrow> bytes \<Rightarrow> int \<Rightarrow> Batch \<Rightarrow> Batch" where
  "PutWithTTL env key val ttl b =
     appendRec env False (if ttl \<noteq> 0 then of_int (unix_after env ttl) else 0) key val b"

definition Put :: "env \<Rightarrow> bytes \<Rightarrow> bytes \<Rightarrow> Batch \<Rightarrow> Batch" where
  "Put env key val b = PutWithTTL env key val 0 b"

definition Delete :: "env \<Rightarrow> bytes \<Rightarrow> Batch \<Rightarrow> Batch" where
  "Delete env key b = appendRec env True 0 key [] b"

text \<open>
  \<^verbatim>\<open>mput\<close>. The result is the error (\<open>None\<close> for nil) and the batch as the call leaves
  it. A nil \<^verbatim>\<open>b.mem\<close> and a sequence number beyond \<open>keyMaxSeq\<close> are panics.
\<close>

definition mput ::
  "env \<Rightarrow> bool \<Rightarrow> u32 \<Rightarrow> u32 \<Rightarrow> bytes \<Rightarrow> bytes \<Rightarrow> Batch \<Rightarrow> error option \<times> Batch" where
  "mput env dFlag h ex key val b =
     (if length key = 0 then (Some errKeyEmpty, b)
      else if length key > MaxKeyLength env then (Some errKeyTooLarge, b)
      else if length val > MaxValueLength env then (Some errValueTooLarge, b)
      else
        case mem b of
          None \<Rightarrow> (Some (panic ''nil pointer dereference''), b)
        | Some m \<Rightarrow>
           (case makeInternalKey [] key (seq m + 1) dFlag ex of
              Inl e \<Rightarrow> (Some e, b)
            | Inr k \<Rightarrow>
               (case mem_put env m h k val ex of
                  Inl e \<Rightarrow> (Some e, b)
                | Inr m1 \<Rightarrow>
                   (case (if loadExceeded env m1 then mem_split env m1 else Inr m1) of
                      Inl e \<Rightarrow> (Some e, b\<lparr>mem := Some m1\<rparr>)
                    | Inr m2 \<Rightarrow>
                       (None,
                        b\<lparr>firstKeyHash := (if firstKeyHash b = 0 then h else firstKeyHash b),
                          mem := Some (m2\<lparr>seq := seq m2 + 1\<rparr>)\<rparr>)))))"

text \<open>
  The loop of \<^verbatim>\<open>writeInternal\<close> over the pending writes, \<open>i\<close> being the loop index.
  It stops at the first error of \<open>fn\<close>; a key/value extraction out of range is a panic.
\<close>

fun writeInternal_loop ::
  "(nat \<Rightarrow> bool \<Rightarrow> u32 \<Rightarrow> u32 \<Rightarrow> bytes \<Rightarrow> bytes \<Rightarrow> Batch \<Rightarrow> error option \<times> Batch) \<Rightarrow>
   nat \<Rightarrow> batchIndex list \<Rightarrow> Batch \<Rightarrow> error option \<times> Batch" where
  "writeInternal_loop fn i [] b = (None, b)"
| "writeInternal_loop fn i (ix # rest) b =
     (case kv ix (data b) of
        None \<Rightarrow> (Some (panic ''slice bounds out of range''), b)
      | Some (key, val) \<Rightarrow>
         (case fn i (delFlag ix) (hash ix) (expiresAt ix) key val b of
            (Some e, b') \<Rightarrow> (Some e, b')
          | (None, b') \<Rightarrow> writeInternal_loop fn (Suc i) rest b'))"

definition writeInternal ::
  "(u32 \<times> int) list \<Rightarrow>
   (nat \<Rightarrow> bool \<Rightarrow> u32 \<Rightarrow> u32 \<Rightarrow> bytes \<Rightarrow> bytes \<Rightarrow> Batch \<Rightarrow> error option \<times> Batch) \<Rightarrow>
   Batch \<Rightarrow> error option \<times> Batch" where
  "writeInternal ord fn b =
     (case uniq ord (index b) of
        None \<Rightarrow> (Some (panic ''index out of range''), b)
      | Some pendingWrites \<Rightarrow> writeInternal_loop fn 0 pendingWrites b)"


text \<open>\<^verbatim>\<open>Len\<close>, \<^verbatim>\<open>Reset\<close>.\<close>

definition Len :: "Batch \<Rightarrow> nat" where
  "Len b = length (index b)"

definition Reset :: "Batch \<Rightarrow> Batch" where
  "Reset b = b\<lparr>data := [], index := [], internalLen := 0\<rparr>"

text \<open>
  Modelled from the spec: the channel \<^verbatim>\<open>writeLockC\<close> is made in a file not at hand; the spec
  calls it a 1-slot gate, so its buffer holds one token.
\<close>

definition writeLockC_cap :: nat where
  "writeLockC_cap = 1"

text \<open>
  \<^verbatim>\<open>Write\<close>. The send on \<^verbatim>\<open>writeLockC\<close> blocks while the buffer is full: the call
  does not proceed, which is the result \<open>None\<close>. Otherwise the result is the error, the
  batch and the database as the call leaves them.
\<close>

definition Write ::
  "env \<Rightarrow> (u32 \<times> int) list \<Rightarrow> Batch \<Rightarrow> DB \<Rightarrow> (error option \<times> Batch \<times> DB) option" where
  "Write env ord b db =
     (if writeLockC db \<ge> writeLockC_cap then None
      else
        let db1 = db\<lparr>writeLockC := writeLockC db + 1\<rparr>
        in case mem b of
             None \<Rightarrow> Some (Some (panic ''nil pointer dereference''), b, db1)
           | Some m \<Rightarrow>
               (case writeInternal ord (\<lambda>i. mput env) (b\<lparr>batchSeq := seq m\<rparr>) of
                  (r, b') \<Rightarrow> Some (r, b', db1)))"

section \<open>Commit\<close>

text \<open>
  Modelled from the spec: the collaborators of the commit walk that are not among the sources at hand.
  \<^item> \<open>e_kvSize\<close>: the payload size of a slot, key size plus value size;
  \<^item> \<open>readKey\<close>: the key of the payload at the slot's offset;
  \<^item> \<open>writeKeyValue\<close>: stores the payload and returns its offset;
  \<^item> \<open>data_free\<close>: hands a span to the free list;
  \<^item> \<open>bh_del\<close>: clears a slot of a handle;
  \<^item> \<open>filter_Append\<close>: adds a hash to the presence filter.
\<close>

definition e_kvSize :: "entry \<Rightarrow> u32" where
  "e_kvSize sl = ucast (e_keySize sl) + e_valueSize sl"

definition readKey :: "env \<Rightarrow> DB \<Rightarrow> entry \<Rightarrow> error + bytes" where
  "readKey env db sl =
     (case readKey_err env db sl of
        Some e \<Rightarrow> Inl e
      | None \<Rightarrow> (case payload db (e_kvOffset sl) of
                   None \<Rightarrow> Inl (errIO 0)
                 | Some (k, v) \<Rightarrow> Inr k))"

definition writeKeyValue :: "env \<Rightarrow> bytes \<Rightarrow> bytes \<Rightarrow> DB \<Rightarrow> error + (int \<times> DB)" where
  "writeKeyValue env key val db =
     (case writeKeyValue_err env db key val of
        Some e \<Rightarrow> Inl e
      | None \<Rightarrow>
          let off = alloc env db (length key + length val)
          in Inr (off, db\<lparr>payload := (payload db)(off := Some (key, val))\<rparr>))"

definition data_free :: "u32 \<Rightarrow> int \<Rightarrow> DB \<Rightarrow> DB" where
  "data_free sz off db = db\<lparr>freed := (sz, off) # freed db\<rparr>"

definition bh_del :: "nat \<Rightarrow> bucketHandle \<Rightarrow> bucketHandle" where
  "bh_del i h = h\<lparr>entries := (entries h)[i := zero_entry]\<rparr>"

definition filter_Append :: "u32 \<Rightarrow> DB \<Rightarrow> DB" where
  "filter_Append h db = db\<lparr>db_filter := insert (ucast h) (db_filter db)\<rparr>"

text \<open>
  A handle held in memory during the commit: the bucket number and the position in the chain
  it was read from, and its content, which the code may have changed since.
\<close>

type_synonym bref = "nat \<times> nat \<times> bucketHandle"

text \<open>
  Modelled from the spec: \<^verbatim>\<open>bucketHandle.write\<close> persists the handle at its place in
  the index; a new overflow bucket takes the place after the last handle of the chain.
\<close>

definition bh_write :: "env \<Rightarrow> bref \<Rightarrow> DB \<Rightarrow> error + DB" where
  "bh_write env r db =
     (case r of (idx, pos, h) \<Rightarrow>
        (case write_err env db h of
           Some e \<Rightarrow> Inl e
         | None \<Rightarrow>
             let c = buckets db idx;
                 c' = (if pos < length c then c[pos := h] else c @ [h])
             in Inr (db\<lparr>buckets := (buckets db)(idx := c')\<rparr>)))"

text \<open>
  Modelled from the spec: \<^verbatim>\<open>forEachBucket\<close> is not among the sources at hand. It iterates the chain
  of a bucket: the callback gets each handle in turn; the walk ends when the callback asks to
  stop or returns an error, which is passed on, or when the handle has no overflow bucket.
  A handle that cannot be read is an I/O error. The callback is given the position of the
  handle as well, and threads a state.
\<close>

fun forEachBucket ::
  "bucketHandle list \<Rightarrow> (nat \<Rightarrow> bucketHandle \<Rightarrow> 's \<Rightarrow> (bool \<times> error option) \<times> 's) \<Rightarrow>
   nat \<Rightarrow> 's \<Rightarrow> error option \<times> 's" where
  "forEachBucket [] cb pos s = (Some (errIO 1), s)"
| "forEachBucket (h # rest) cb pos s =
     (case cb pos h s of
        ((stop, err), s') \<Rightarrow>
          if stop \<or> err \<noteq> None then (err, s')
          else if bnext h = 0 then (None, s')
          else forEachBucket rest cb (Suc pos) s')"

text \<open>
  The variables of \<^verbatim>\<open>commit\<close> that its closures share: the database, the two
  counters, the pointers \<^verbatim>\<open>bh\<close> and \<^verbatim>\<open>originalB\<close> (nil is \<open>None\<close>),
  \<^verbatim>\<open>entryIdx\<close>, and the frees deferred in the running callback, latest first. The
  counters are \<^verbatim>\<open>int64\<close>; they count entries and do not overflow.
\<close>

record cstate =
  c_db :: DB
  delCount :: int
  putCount :: int
  c_bh :: "bref option"
  originalB :: "bref option"
  entryIdx :: nat
  deferred :: "(u32 \<times> int) list"

subsection \<open>Delete path\<close>

text \<open>
  The slot loop of the lookup callback (lines 274-288), from slot \<open>i\<close> on. The result is
  what the callback returns, and the value assigned to \<^verbatim>\<open>delentryIdx\<close> if any.
\<close>

fun del_scan ::
  "env \<Rightarrow> DB \<Rightarrow> u32 \<Rightarrow> bytes \<Rightarrow> bucketHandle \<Rightarrow> nat \<Rightarrow> entry list \<Rightarrow>
   (bool \<times> error option) \<times> nat option" where
  "del_scan env db h key curb i [] = ((False, None), None)"
| "del_scan env db h key curb i (sl # sls) =
     (if e_kvOffset sl = 0 then ((bnext curb = 0, None), None)
      else if h = e_hash sl \<and> (of_nat (length key) :: u16) = e_keySize sl then
        (case readKey env db sl of
           Inl err \<Rightarrow> ((True, Some err), None)
         | Inr slKey \<Rightarrow>
             if key = slKey then ((True, None), Some i)
             else del_scan env db h key curb (Suc i) sls)
      else del_scan env db h key curb (Suc i) sls)"

text \<open>
  The lookup callback: \<^verbatim>\<open>bh = curb\<close>, then the slot loop. Its state is the local
  \<^verbatim>\<open>bh\<close> with its position, and \<^verbatim>\<open>delentryIdx\<close>.
\<close>

definition del_cb ::
  "env \<Rightarrow> DB \<Rightarrow> u32 \<Rightarrow> bytes \<Rightarrow> nat \<Rightarrow> bucketHandle \<Rightarrow> (nat \<times> bucketHandle) \<times> int \<Rightarrow>
   (bool \<times> error option) \<times> ((nat \<times> bucketHandle) \<times> int)" where
  "del_cb env db h key pos curb s =
     (case del_scan env db h key curb 0 (entries curb) of
        (r, None) \<Rightarrow> (r, ((pos, curb), snd s))
      | (r, Some i) \<Rightarrow> (r, ((pos, curb), int i)))"

definition zero_bucketHandle :: "env \<Rightarrow> bucketHandle" where
  "zero_bucketHandle env =
     \<lparr>entries = replicate (entriesPerBucket env) zero_entry, bnext = 0, offset = 0\<rparr>"

text \<open>
  The delete branch (lines 264-300) for the user key \<open>key\<close> with hash \<open>h\<close>. The result
  \<open>Some r\<close> is a \<^verbatim>\<open>return r\<close> from the memdb callback; \<open>None\<close> is falling through
  to the next slot.
\<close>

definition delete_path ::
  "env \<Rightarrow> u32 \<Rightarrow> bytes \<Rightarrow> cstate \<Rightarrow> (bool \<times> error option) option \<times> cstate" where
  "delete_path env h key st =
     (if (ucast h :: u64) \<notin> db_filter (c_db st) then (Some (False, None), st)
      else
        let st1 = st\<lparr>delCount := delCount st + 1\<rparr>;
            db = c_db st1;
            bidx = db_bucketIndex env db h
        in case forEachBucket (buckets db bidx) (del_cb env db h key) 0
                  ((0, zero_bucketHandle env), - 1) of
             (err, ((pos, dbh), delentryIdx)) \<Rightarrow>
               if delentryIdx = - 1 \<or> err \<noteq> None then (Some (False, err), st1)
               else
                 let sl = entries dbh ! nat delentryIdx
                 in case bh_write env (bidx, pos, bh_del (nat delentryIdx) dbh) db of
                      Inl e \<Rightarrow> (Some (False, Some e), st1)
                    | Inr db1 \<Rightarrow>
                        let db2 = data_free (e_kvSize sl) (e_kvOffset sl) db1
                        in (None, st1\<lparr>c_db := db2\<lparr>db_count := db_count db2 - 1\<rparr>\<rparr>))"


subsection \<open>Put path\<close>

text \<open>
  The slot loop of the put callback (lines 305-317), from slot \<open>i\<close> on; the last argument
  is \<^verbatim>\<open>entryIdx\<close>, which every iteration sets to the slot number. The first result is
  the \<^verbatim>\<open>return\<close> taken inside the loop, or \<open>None\<close> when the loop ran to its end.
\<close>

fun put_scan ::
  "env \<Rightarrow> DB \<Rightarrow> u32 \<Rightarrow> bytes \<Rightarrow> nat \<Rightarrow> entry list \<Rightarrow> nat \<Rightarrow>
   (bool \<times> error option) option \<times> nat" where
  "put_scan env db h key i [] eidx = (None, eidx)"
| "put_scan env db h key i (sl # sls) eidx =
     (if e_kvOffset sl = 0 then (Some (True, None), i)
      else if h = e_hash sl \<and> (of_nat (length key) :: u16) = e_keySize sl then
        (case readKey env db sl of
           Inl err \<Rightarrow> (Some (True, Some err), i)
         | Inr slKey \<Rightarrow>
             if key = slKey then (Some (True, None), i)
             else put_scan env db h key (Suc i) sls i)
      else put_scan env db h key (Suc i) sls i)"

text \<open>
  Modelled from the spec: \<^verbatim>\<open>createOverflowBucket\<close> is not among the sources at hand; it allocates a
  new, empty overflow bucket.
\<close>

definition createOverflowBucket :: "env \<Rightarrow> DB \<Rightarrow> error + bucketHandle" where
  "createOverflowBucket env db =
     (case overflow_err env db of
        Some e \<Rightarrow> Inl e
      | None \<Rightarrow> Inr \<lparr>entries = replicate (entriesPerBucket env) zero_entry, bnext = 0,
                     offset = new_offset env db\<rparr>)"

text \<open>
  The put callback (lines 303-331) on the handle \<open>curb\<close> at position \<open>pos\<close> of the chain
  of bucket \<open>bidx\<close>: \<^verbatim>\<open>bh = &curb\<close>, the slot loop, and the overflow bucket when the
  chain ends without a free slot.
\<close>

definition put_cb ::
  "env \<Rightarrow> nat \<Rightarrow> u32 \<Rightarrow> bytes \<Rightarrow> nat \<Rightarrow> bucketHandle \<Rightarrow> cstate \<Rightarrow>
   (bool \<times> error option) \<times> cstate" where
  "put_cb env bidx h key pos curb st =
     (let st1 = st\<lparr>c_bh := Some (bidx, pos, curb)\<rparr>
      in case put_scan env (c_db st) h key 0 (entries curb) (entryIdx st) of
           (Some r, eidx) \<Rightarrow> (r, st1\<lparr>entryIdx := eidx\<rparr>)
         | (None, eidx) \<Rightarrow>
             let st2 = st1\<lparr>entryIdx := eidx\<rparr>
             in if bnext curb = 0 then
                  (case createOverflowBucket env (c_db st) of
                     Inl e \<Rightarrow> ((False, Some e), st2)
                   | Inr nextBucket \<Rightarrow>
                       ((True, None),
                        st2\<lparr>originalB := Some (bidx, pos, curb\<lparr>bnext := offset nextBucket\<rparr>),
                            c_bh := Some (bidx, Suc pos, nextBucket),
                            entryIdx := 0\<rparr>))
                else ((False, None), st2))"

text \<open>
  The put branch (lines 302-363) for the user key \<open>key\<close> with hash \<open>h\<close>. A nil
  \<^verbatim>\<open>bh\<close> and a slot number out of range are panics.
\<close>

definition put_path ::
  "env \<Rightarrow> u32 \<Rightarrow> bytes \<Rightarrow> bytes \<Rightarrow> u32 \<Rightarrow> cstate \<Rightarrow>
   (bool \<times> error option) option \<times> cstate" where
  "put_path env h key val ex st =
     (let st1 = st\<lparr>putCount := putCount st + 1\<rparr>;
          bidx = db_bucketIndex env (c_db st1) h
      in case forEachBucket (buckets (c_db st1) bidx) (put_cb env bidx h key) 0 st1 of
           (Some e, st2) \<Rightarrow> (Some (False, Some e), st2)
         | (None, st2) \<Rightarrow>
            (case c_bh st2 of
               None \<Rightarrow> (Some (True, Some (panic ''nil pointer dereference'')), st2)
             | Some (bi, pos, pbh) \<Rightarrow>
                 if entryIdx st2 \<ge> length (entries pbh)
                 then (Some (True, Some (panic ''index out of range'')), st2)
                 else
                   let old = entries pbh ! entryIdx st2
                   in if e_kvOffset old = 0 \<and> db_count (c_db st2) = MaxKeys env
                      then (Some (False, Some errFull), st2)
                      else
                        let st3 = (if e_kvOffset old = 0
                                   then st2\<lparr>c_db := (c_db st2)\<lparr>db_count := db_count (c_db st2) + 1\<rparr>\<rparr>
                                   else st2\<lparr>deferred := (e_kvSize old, e_kvOffset old) # deferred st2\<rparr>);
                            ne = \<lparr>e_hash = h, e_keySize = of_nat (length key),
                                  e_valueSize = of_nat (length val), e_expiresAt = ex,
                                  e_kvOffset = 0\<rparr>;
                            bh1 = pbh\<lparr>entries := (entries pbh)[entryIdx st2 := ne]\<rparr>
                        in case writeKeyValue env key val (c_db st3) of
                             Inl e \<Rightarrow> (Some (False, Some e), st3\<lparr>c_bh := Some (bi, pos, bh1)\<rparr>)
                           | Inr (off, db1) \<Rightarrow>
                               let bh2 = pbh\<lparr>entries :=
                                            (entries pbh)[entryIdx st2 := ne\<lparr>e_kvOffset := off\<rparr>]\<rparr>;
                                   st4 = st3\<lparr>c_db := db1, c_bh := Some (bi, pos, bh2)\<rparr>
                               in case bh_write env (bi, pos, bh2) db1 of
                                    Inl e \<Rightarrow> (Some (False, Some e), st4)
                                  | Inr db2 \<Rightarrow>
                                     (case originalB st4 of
                                        None \<Rightarrow> (None, st4\<lparr>c_db := filter_Append h db2\<rparr>)
                                      | Some ob \<Rightarrow>
                                         (case bh_write env ob db2 of
                                            Inl e \<Rightarrow> (Some (False, Some e), st4\<lparr>c_db := db2\<rparr>)
                                          | Inr db3 \<Rightarrow>
                                              (None, st4\<lparr>c_db := filter_Append h db3\<rparr>)))))"

subsection \<open>The walk\<close>

text \<open>
  The slot loop of the memdb callback (lines 240-366) over the slots of the handle
  \<open>memb\<close>.
\<close>

fun commit_slots ::
  "env \<Rightarrow> Batch \<Rightarrow> memdb \<Rightarrow> bucketHandle \<Rightarrow> entry list \<Rightarrow> cstate \<Rightarrow>
   (bool \<times> error option) \<times> cstate" where
  "commit_slots env b m memb [] st = ((False, None), st)"
| "commit_slots env b m memb (memsl # rest) st =
     (if e_kvOffset memsl = 0 then ((bnext memb = 0, None), st)
      else
        case mem_readKeyValue env m memsl of
          Inl err \<Rightarrow>
            if err = errKeyExpired then commit_slots env b m memb rest st
            else ((True, Some err), st)
        | Inr (memslKey, val) \<Rightarrow>
           (case parseInternalKey memslKey of
              (key, sq, dFlag, ex, Some err) \<Rightarrow> ((True, Some err), st)
            | (key, sq, dFlag, ex, None) \<Rightarrow>
                if sq \<le> batchSeq b then commit_slots env b m memb rest st
                else if sq > batchSeq b + of_nat (Len b)
                then ((True, Some errBatchSeqComplete), st)
                else
                  let h = db_hash env key
                  in case (if dFlag then delete_path env h key st
                           else put_path env h key val ex st) of
                       (Some r, st') \<Rightarrow> (r, st')
                     | (None, st') \<Rightarrow> commit_slots env b m memb rest st'))"

text \<open>
  The frees deferred in the callback run when it returns, the latest first.
\<close>

definition run_deferred :: "cstate \<Rightarrow> cstate" where
  "run_deferred st =
     st\<lparr>c_db := fold (\<lambda>(sz, off). data_free sz off) (deferred st) (c_db st), deferred := []\<rparr>"

definition commit_cb ::
  "env \<Rightarrow> Batch \<Rightarrow> memdb \<Rightarrow> nat \<Rightarrow> bucketHandle \<Rightarrow> cstate \<Rightarrow>
   (bool \<times> error option) \<times> cstate" where
  "commit_cb env b m pos memb st =
     (case commit_slots env b m memb (entries memb) st of
        (r, st') \<Rightarrow> (r, run_deferred st'))"

text \<open>
  The loop over the memdb buckets (lines 238-375). \<open>errBatchSeqComplete\<close> breaks out of
  it; any other error returns from \<^verbatim>\<open>commit\<close>, which the result \<open>Some err\<close> stands for.
\<close>

function commit_walk ::
  "env \<Rightarrow> Batch \<Rightarrow> memdb \<Rightarrow> nat \<Rightarrow> cstate \<Rightarrow> error option \<times> cstate" where
  "commit_walk env b m bucketIdx st =
     (if bucketIdx < nBuckets m then
        (case forEachBucket (mem_chain env m bucketIdx) (commit_cb env b m) 0 st of
           (Some err, st') \<Rightarrow>
             if err = errBatchSeqComplete then (None, st') else (Some err, st')
         | (None, st') \<Rightarrow> commit_walk env b m (Suc bucketIdx) st')
      else (None, st))"
  by pat_completeness auto

termination
  by (relation "measure (\<lambda>(env, b, m, bucketIdx, st). nBuckets m - bucketIdx)") auto

definition commit :: "env \<Rightarrow> Batch \<Rightarrow> DB \<Rightarrow> error option \<times> DB" where
  "commit env b db =
     (case mem b of
        None \<Rightarrow> (Some (panic ''nil pointer dereference''), db)
      | Some m \<Rightarrow>
          let st0 = \<lparr>c_db = db, delCount = 0, putCount = 0, c_bh = None, originalB = None,
                     entryIdx = 0, deferred = []\<rparr>
          in case commit_walk env b m (mem_bucketIndex env m (firstKeyHash b)) st0 of
               (Some err, st) \<Rightarrow> (Some err, c_db st)
             | (None, st) \<Rightarrow>
                 let db1 = (c_db st)\<lparr>Dels := Dels (c_db st) + delCount st,
                                      Puts := Puts (c_db st) + putCount st\<rparr>
                 in if syncWrites db1 then (sync_err env db1, db1) else (None, db1))"

text \<open>
  \<^verbatim>\<open>Commit\<close> and \<^verbatim>\<open>Abort\<close>. \<^verbatim>\<open>_assert\<close> panics on a managed batch. In
  \<^verbatim>\<open>Abort\<close> the receive from \<^verbatim>\<open>writeLockC\<close> blocks while the buffer is empty (the
  result \<open>None\<close>). The memdb, its reference count decremented, stays with the database; the
  batch no longer points to it.
\<close>

definition Commit :: "env \<Rightarrow> Batch \<Rightarrow> DB \<Rightarrow> error option \<times> DB" where
  "Commit env b db =
     (if managed b then (Some (panic ''assertion failed: managed tx commit not allowed''), db)
      else case mem b of
             None \<Rightarrow> (None, db)
           | Some m \<Rightarrow> if ref m = 0 then (None, db) else commit env b db)"

definition Abort :: "Batch \<Rightarrow> DB \<Rightarrow> (error option \<times> Batch \<times> DB) option" where
  "Abort b db =
     (if managed b
      then Some (Some (panic ''assertion failed: managed tx commit not allowed''), b, db)
      else
        let b1 = Reset b
        in case mem b1 of
             None \<Rightarrow> Some (Some (panic ''nil pointer dereference''), b1, db)
           | Some m \<Rightarrow>
               if writeLockC db = 0 then None
               else Some (None, b1\<lparr>mem := None\<rparr>, db\<lparr>writeLockC := writeLockC db - 1\<rparr>))"


section \<open>What a memdb record carries\<close>

text \<open>
  The sequence number of a staged record, read from its internal key with
  \<^verbatim>\<open>parseInternalKey\<close> as the commit walk does.
\<close>

definition staged_seq :: "mrecord \<Rightarrow> u64" where
  "staged_seq r = fst (snd (parseInternalKey (m_key r)))"

text \<open>
  \<open>staged_from ix d sq r\<close>: the record \<open>r\<close> is what staging the index entry \<open>ix\<close> of a
  batch with buffer \<open>d\<close> under the sequence number \<open>sq\<close> puts into the memdb: the hash,
  the expiry and the value of the entry, under an internal key that parses to the entry's
  key, \<open>sq\<close>, its delete flag and its expiry.
\<close>

definition staged_from :: "batchIndex \<Rightarrow> bytes \<Rightarrow> u64 \<Rightarrow> mrecord \<Rightarrow> bool" where
  "staged_from ix d sq r \<longleftrightarrow>
     (case kv ix d of
        None \<Rightarrow> False
      | Some (key, val) \<Rightarrow>
          parseInternalKey (m_key r) = (key, sq, delFlag ix, expiresAt ix, None) \<and>
          m_hash r = hash ix \<and> m_value r = val \<and> m_expiresAt r = expiresAt ix)"

section \<open>Example data\<close>

text \<open>
  A small environment for the examples: the hash of a key is its first byte; the memdb has
  one bucket whose single handle holds the records in order, followed by an empty slot; no
  collaborator fails.
\<close>

definition ex_hash :: "bytes \<Rightarrow> u32" where
  "ex_hash k = (case k of [] \<Rightarrow> 0 | c # _ \<Rightarrow> ucast c)"

definition ex_chain :: "memdb \<Rightarrow> nat \<Rightarrow> bucketHandle list" where
  "ex_chain m i =
     (if i = 0
      then [\<lparr>entries = map (\<lambda>j. zero_entry\<lparr>e_hash := m_hash (table m ! j),
                                               e_kvOffset := int (Suc j)\<rparr>)
                          [0..<length (table m)] @ [zero_entry],
             bnext = 0, offset = 0\<rparr>]
      else [])"

definition ex_readKeyValue :: "memdb \<Rightarrow> entry \<Rightarrow> error + (bytes \<times> bytes)" where
  "ex_readKeyValue m sl =
     (if 0 < e_kvOffset sl \<and> e_kvOffset sl \<le> int (length (table m))
      then Inr (m_key (table m ! nat (e_kvOffset sl - 1)),
                m_value (table m ! nat (e_kvOffset sl - 1)))
      else Inl (errIO 2))"

definition ex_env :: env where
  "ex_env =
     \<lparr>MaxKeyLength = 8, MaxValueLength = 16, MaxKeys = 100, entriesPerBucket = 2,
      mem_hash = ex_hash, db_hash = ex_hash,
      mem_bucketIndex = (\<lambda>m h. 0), db_bucketIndex = (\<lambda>db h. 0),
      mem_chain = ex_chain, mem_readKeyValue = ex_readKeyValue,
      put_err = (\<lambda>m r. None), split_err = (\<lambda>m. None), readKey_err = (\<lambda>db sl. None),
      write_err = (\<lambda>db h. None), writeKeyValue_err = (\<lambda>db k v. None),
      overflow_err = (\<lambda>db. None), sync_err = (\<lambda>db. None),
      alloc = (\<lambda>db n. 1), new_offset = (\<lambda>db. 64),
      loadExceeded = (\<lambda>m. False), unix_after = (\<lambda>t. t)\<rparr>"

definition ex_mem :: memdb where
  "ex_mem = \<lparr>seq = 7, mem_count = 0, nBuckets = 1, table = [], ref = 1\<rparr>"

definition ex_batch :: Batch where
  "ex_batch = \<lparr>managed = False, batchSeq = 0, data = [], index = [], firstKeyHash = 0,
               mem = Some ex_mem, internalLen = 0\<rparr>"

definition ex_db :: DB where
  "ex_db = \<lparr>writeLockC = 0, db_count = 0, buckets = (\<lambda>i. [zero_bucketHandle ex_env]),
            payload = (\<lambda>off. None), freed = [], db_filter = {}, Dels = 0, Puts = 0,
            syncWrites = False\<rparr>"


text \<open>
  Two batches for the examples. The first holds \<open>Put a 1\<close>, \<open>Put b 2\<close>, \<open>Put a 3\<close>; the
  second holds \<open>Put a 1\<close>, a put of the empty key and \<open>Put c 3\<close>. With each goes an order
  in which Go may enumerate its \<^verbatim>\<open>unique_set\<close>.
\<close>

definition ex_batch3 :: Batch where
  "ex_batch3 = Put ex_env [97] [51] (Put ex_env [98] [50] (Put ex_env [97] [49] ex_batch))"

definition ex_ord3 :: "(u32 \<times> int) list" where
  "ex_ord3 = [(98, 1), (97, 0)]"

definition ex_batch_bad :: Batch where
  "ex_batch_bad = Put ex_env [99] [51] (Put ex_env [] [50] (Put ex_env [97] [49] ex_batch))"

definition ex_ord_bad :: "(u32 \<times> int) list" where
  "ex_ord_bad = [(0, 1), (97, 2), (99, 0)]"


text \<open>
  A memdb as a commit may find it: a record with sequence number 5, older than the batch,
  followed by a record with sequence number 12; and a batch of one entry whose \<open>batchSeq\<close>
  is 7, so that 12 lies beyond \<open>batchSeq + Len\<close>.
\<close>

definition ex_ikey :: "bytes \<Rightarrow> u64 \<Rightarrow> bool \<Rightarrow> bytes" where
  "ex_ikey key sq d = (case makeInternalKey [] key sq d 0 of Inr k \<Rightarrow> k | Inl _ \<Rightarrow> [])"

definition ex_mem_walk :: memdb where
  "ex_mem_walk =
     \<lparr>seq = 12, mem_count = 2, nBuckets = 1,
      table = [\<lparr>m_hash = 120, m_key = ex_ikey [120] 5 False, m_value = [49], m_expiresAt = 0\<rparr>,
               \<lparr>m_hash = 122, m_key = ex_ikey [122] 12 False, m_value = [50], m_expiresAt = 0\<rparr>],
      ref = 1\<rparr>"

definition ex_batch_walk :: Batch where
  "ex_batch_walk =
     ex_batch\<lparr>batchSeq := 7, index := [ex_entry 97 1], firstKeyHash := 97,
              mem := Some ex_mem_walk\<rparr>"

text \<open>
  A database whose presence filter answers true for the hash 97 although no key is stored,
  and the batch \<open>Delete a\<close> after its \<^verbatim>\<open>Write\<close> on that database.
\<close>

definition ex_fp_db :: DB where
  "ex_fp_db = ex_db\<lparr>db_filter := {97}\<rparr>"

definition ex_batch_del :: Batch where
  "ex_batch_del =
     (case Write ex_env [(97, 0)] (Delete ex_env [97] ex_batch) ex_fp_db of
        Some (r, b', db') \<Rightarrow> b' | None \<Rightarrow> ex_batch)"

definition ex_db_del :: DB where
  "ex_db_del =
     (case Write ex_env [(97, 0)] (Delete ex_env [97] ex_batch) ex_fp_db of
        Some (r, b', db') \<Rightarrow> db' | None \<Rightarrow> ex_fp_db)"

definition ex_mem_del :: memdb where
  "ex_mem_del = (case mem ex_batch_del of Some m \<Rightarrow> m | None \<Rightarrow> ex_mem)"

text \<open>
  The batch of three puts and the database after its \<^verbatim>\<open>Write\<close>.
\<close>

definition ex_batch3_written :: Batch where
  "ex_batch3_written =
     (case Write ex_env ex_ord3 ex_batch3 ex_db of
        Some (r, b', db') \<Rightarrow> b' | None \<Rightarrow> ex_batch3)"

definition ex_db3_written :: DB where
  "ex_db3_written =
     (case Write ex_env ex_ord3 ex_batch3 ex_db of
        Some (r, b', db') \<Rightarrow> db' | None \<Rightarrow> ex_db)"

section \<open>Sequences of calls\<close>

text \<open>
  A sequence of appends to a batch: \<^verbatim>\<open>Put\<close>, \<^verbatim>\<open>PutWithTTL\<close> and \<^verbatim>\<open>Delete\<close> calls,
  applied one after the other.
\<close>

datatype append_op = OpPut bytes bytes | OpPutWithTTL bytes bytes int | OpDelete bytes

fun apply_append :: "env \<Rightarrow> append_op \<Rightarrow> Batch \<Rightarrow> Batch" where
  "apply_append env (OpPut key val) b = Put env key val b"
| "apply_append env (OpPutWithTTL key val ttl) b = PutWithTTL env key val ttl b"
| "apply_append env (OpDelete key) b = Delete env key b"

definition appends :: "env \<Rightarrow> append_op list \<Rightarrow> Batch \<Rightarrow> Batch" where
  "appends env ops b = fold (apply_append env) ops b"

text \<open>
  A sequence of \<^verbatim>\<open>Write\<close>, \<^verbatim>\<open>Commit\<close> and \<^verbatim>\<open>Abort\<close> calls on one database, each
  by a batch of its own, one call at a time. \<open>call_db\<close> is the database as the call leaves
  it, \<open>None\<close> when the call blocks; \<open>run_calls\<close> runs the calls in order and is \<open>None\<close> as
  soon as one of them blocks.
\<close>

datatype call = CallWrite "(u32 \<times> int) list" Batch | CallCommit Batch | CallAbort Batch

fun is_Write :: "call \<Rightarrow> bool" where
  "is_Write (CallWrite ord b) = True"
| "is_Write _ = False"

fun is_Abort :: "call \<Rightarrow> bool" where
  "is_Abort (CallAbort b) = True"
| "is_Abort _ = False"

fun call_db :: "env \<Rightarrow> call \<Rightarrow> DB \<Rightarrow> DB option" where
  "call_db env (CallWrite ord b) db =
     (case Write env ord b db of None \<Rightarrow> None | Some (r, b', db') \<Rightarrow> Some db')"
| "call_db env (CallCommit b) db = Some (snd (Commit env b db))"
| "call_db env (CallAbort b) db =
     (case Abort b db of None \<Rightarrow> None | Some (r, b', db') \<Rightarrow> Some db')"

fun run_calls :: "env \<Rightarrow> call list \<Rightarrow> DB \<Rightarrow> DB option" where
  "run_calls env [] db = Some db"
| "run_calls env (c # cs) db =
     (case call_db env c db of None \<Rightarrow> None | Some db' \<Rightarrow> run_calls env cs db')"

text \<open>
  The appends that build the batch of three puts.
\<close>

definition ex_ops3 :: "append_op list" where
  "ex_ops3 = [OpPut [97] [49], OpPut [98] [50], OpPut [97] [51]]"

text \<open>
  A database whose presence filter answers true for the hashes 97 and 98 although no key is
  stored, and the batch \<open>Delete a\<close>, \<open>Delete b\<close> after its \<^verbatim>\<open>Write\<close> on that database.
\<close>

definition ex_fp2_db :: DB where
  "ex_fp2_db = ex_db\<lparr>db_filter := {97, 98}\<rparr>"

definition ex_batch_del2 :: Batch where
  "ex_batch_del2 =
     (case Write ex_env [(97, 1), (98, 0)] (Delete ex_env [98] (Delete ex_env [97] ex_batch))
             ex_fp2_db of
        Some (r, b', db') \<Rightarrow> b' | None \<Rightarrow> ex_batch)"

definition ex_db_del2 :: DB where
  "ex_db_del2 =
     (case Write ex_env [(97, 1), (98, 0)] (Delete ex_env [98] (Delete ex_env [97] ex_batch))
             ex_fp2_db of
        Some (r, b', db') \<Rightarrow> db' | None \<Rightarrow> ex_fp2_db)"

definition ex_mem_del2 :: memdb where
  "ex_mem_del2 = (case mem ex_batch_del2 of Some m \<Rightarrow> m | None \<Rightarrow> ex_mem)"

section \<open>The part of the database the commit walk leaves alone\<close>

definition gate_frame :: "DB \<Rightarrow> nat \<times> int \<times> int \<times> bool" where
  "gate_frame db = (writeLockC db, Dels db, Puts db, syncWrites db)"


section \<open>Codec lemmas\<close>

lemma le_get_put: "le_get (le_put n (v::'a::len word)) = (take_bit (8 * n) v :: 'a word)"
proof (induction n arbitrary: v)
  case 0
  show ?case by simp
next
  case (Suc n)
  show ?case
    by (simp add: Suc, rule bit_word_eqI) (auto simp add: bit_simps)
qed

lemma length_le_put: "length (le_put n v) = n"
  by (induction n arbitrary: v) auto

lemma le_get_put_u64: "le_get (le_put 8 (v::u64)) = v"
  by (simp only: le_get_put) (simp add: take_bit_word_eq_self)

lemma le_get_put_u32: "le_get (le_put 4 (v::u32)) = v"
  by (simp only: le_get_put) (simp add: take_bit_word_eq_self)

lemma length_ensureBuffer: "length (ensureBuffer b n) = n"
  by (simp add: ensureBuffer_def)

lemma makeInternalKey_layout:
  "sq \<le> keyMaxSeq \<Longrightarrow>
   makeInternalKey dst ukey sq dFlag ex =
     Inr (ukey @ le_put 8 (push_bit 8 sq OR (if dFlag then 1 else 0)) @ le_put 4 ex)"
  by (simp add: makeInternalKey_def Let_def put_at_def copy_into_def length_le_put
        length_ensureBuffer del: le_put.simps)

lemma makeInternalKey_panics:
  "\<not> sq \<le> keyMaxSeq \<Longrightarrow>
   makeInternalKey dst ukey sq dFlag ex = Inl (panic ''tracedb: invalid sequence number'')"
  by (simp add: makeInternalKey_def)

lemma keyMaxSeq_bits:
  assumes "sq \<le> keyMaxSeq"
  shows "take_bit 56 sq = (sq::u64)"
proof -
  have "sq < 2 ^ 56"
    using assms by (simp add: keyMaxSeq_def word_le_nat_alt word_less_nat_alt)
  then have "sq AND mask 56 = sq" by (rule less_mask_eq)
  then show ?thesis by (simp add: take_bit_eq_mask)
qed

lemma seq_dflag:
  assumes "sq \<le> keyMaxSeq"
  shows "drop_bit 8 (push_bit 8 sq OR (if dFlag then 1 else 0)) = (sq::u64)"
    and "((push_bit 8 sq OR (if dFlag then 1 else 0)) AND 0xff \<noteq> (0::u64)) = dFlag"
proof -
  have "drop_bit 8 (push_bit 8 sq OR (if dFlag then 1 else 0)) = take_bit 56 sq"
    by (rule bit_word_eqI) (auto simp add: bit_simps)
  then show "drop_bit 8 (push_bit 8 sq OR (if dFlag then 1 else 0)) = (sq::u64)"
    using keyMaxSeq_bits[OF assms] by simp
  have m: "(255::u64) = mask 8" by (simp add: mask_eq_exp_minus_1)
  have "(push_bit 8 sq OR (if dFlag then 1 else 0)) AND mask 8 = (if dFlag then 1 else (0::u64))"
    by (rule bit_word_eqI) (auto simp add: bit_simps)
  then show "((push_bit 8 sq OR (if dFlag then 1 else 0)) AND 0xff \<noteq> (0::u64)) = dFlag"
    by (simp add: m)
qed

lemma parse_layout:
  "parseInternalKey (ukey @ le_put 8 (num::u64) @ le_put 4 (ex::u32)) =
     (ukey, drop_bit 8 num, num AND 0xff \<noteq> 0, ex, None)"
proof -
  let ?ik = "ukey @ le_put 8 num @ le_put 4 ex"
  have len: "length ?ik = length ukey + 12"
    by (simp add: length_le_put del: le_put.simps)
  have t4: "drop (length ?ik - 4) ?ik = le_put 4 ex"
    by (simp add: len length_le_put del: le_put.simps)
  have t8: "take 8 (drop (length ?ik - 12) ?ik) = le_put 8 num"
    by (simp add: len length_le_put del: le_put.simps)
  have uk: "take (length ?ik - 12) ?ik = ukey"
    by (simp add: length_le_put del: le_put.simps)
  have "\<not> length ?ik < 12" using len by linarith
  then show ?thesis
    unfolding parseInternalKey_def Let_def t4 t8 uk le_get_put_u64 le_get_put_u32
    by simp
qed

lemma parse_make:
  assumes "sq \<le> keyMaxSeq"
  shows "\<exists>ik. makeInternalKey dst ukey sq dFlag ex = Inr ik \<and>
              parseInternalKey ik = (ukey, sq, dFlag, ex, None)"
proof -
  let ?ik = "ukey @ le_put 8 (push_bit 8 sq OR (if dFlag then 1 else 0)) @ le_put 4 ex"
  have "makeInternalKey dst ukey sq dFlag ex = Inr ?ik"
    by (rule makeInternalKey_layout[OF assms])
  moreover have "parseInternalKey ?ik = (ukey, sq, dFlag, ex, None)"
    by (simp only: parse_layout seq_dflag[OF assms])
  ultimately show ?thesis by blast
qed

section \<open>Claims on the codec\<close>

text \<open>
  C5. For every user key, every sequence number up to \<open>2^56 - 1\<close>, both values of the
  delete flag and every expiry, \<^verbatim>\<open>makeInternalKey\<close> returns an internal key (for any
  destination buffer) and \<^verbatim>\<open>parseInternalKey\<close> recovers exactly the four components
  from it, with a nil error.
\<close>

theorem internalKey_roundtrip:
  "unat sq \<le> 2 ^ 56 - 1 \<Longrightarrow>
   (\<exists>ik. makeInternalKey dst ukey sq dFlag ex = Inr ik \<and>
         parseInternalKey ik = (ukey, sq, dFlag, ex, None))"
proof -
  assume "unat sq \<le> 2 ^ 56 - 1"
  then have "sq \<le> keyMaxSeq"
    by (simp add: keyMaxSeq_def word_le_nat_alt)
  then show ?thesis by (rule parse_make)
qed

theorem internalKey_roundtrip_witness:
  "unat (72057594037927935 :: u64) \<le> 2 ^ 56 - 1 \<and>
   (\<exists>ik. makeInternalKey [9, 9] [107, 49] 72057594037927935 True 1700000000 = Inr ik \<and>
         parseInternalKey ik = ([107, 49], 72057594037927935, True, 1700000000, None))"
proof -
  have h: "unat (72057594037927935 :: u64) \<le> 2 ^ 56 - 1" by simp
  show ?thesis
    using h internalKey_roundtrip [OF h, of "[9, 9]" "[107, 49]" True 1700000000] by simp
qed

text \<open>
  C6. The spec says that parsing a blob shorter than 12 bytes fails with
  \<open>InvalidInternalKey\<close>. The code logs "invalid internal key length" and then returns
  through a bare \<^verbatim>\<open>return\<close>, so the error result is nil: on the empty blob and on an
  11-byte blob alike the caller receives zero values and no error.
\<close>

theorem parseInternalKey_short_returns_nil_error:
  "parseInternalKey [] = ([], 0, False, 0, None) \<and>
   parseInternalKey [107, 1, 5, 0, 0, 0, 0, 0, 0, 7, 0] = ([], 0, False, 0, None)"
  by (simp add: parseInternalKey_def)


section \<open>Deduplication lemmas\<close>

lemma update_fresh: "map_of al k = None \<Longrightarrow> AList.update k v al = al @ [(k, v)]"
  by (induct al) auto

lemma scan_state_snoc:
  "scan_state (es @ [y]) =
     (fst (scan_state es) @ [(hash y, int (length es))],
      fst (snd (scan_state es)) @ [(hash y, y)], int (length es) + 1)"
  by (simp add: scan_state_def)

lemma map_of_scan_state:
  "map_of (fst (scan_state es)) h = None \<longleftrightarrow> h \<notin> hash ` set es"
  by (simp add: scan_state_def map_of_zip_is_None)

lemma map_of_index_state:
  "map_of (fst (snd (scan_state es))) h = None \<longleftrightarrow> h \<notin> hash ` set es"
  by (simp add: scan_state_def map_of_eq_None_iff image_image)

lemma uniq_scan_keep_first:
  "uniq_scan ys (scan_state es) = scan_state (es @ keep_first (hash ` set es) ys)"
proof (induction ys arbitrary: es)
  case Nil
  show ?case by simp
next
  case (Cons y ys)
  show ?case
  proof (cases "hash y \<in> hash ` set es")
    case True
    then obtain v where "map_of (fst (scan_state es)) (hash y) = Some v"
      using map_of_scan_state[of es "hash y"] by auto
    then have "uniq_scan (y # ys) (scan_state es) = uniq_scan ys (scan_state es)"
      by (cases "scan_state es") simp
    then show ?thesis using True Cons.IH[of es] by simp
  next
    case False
    then have n1: "map_of (fst (scan_state es)) (hash y) = None"
      and n2: "map_of (fst (snd (scan_state es))) (hash y) = None"
      by (simp_all add: map_of_scan_state map_of_index_state)
    obtain a b where ab: "scan_state es = (a, b, int (length es))"
      by (simp add: scan_state_def)
    have "uniq_scan (y # ys) (scan_state es) = uniq_scan ys (scan_state (es @ [y]))"
      using n1 n2 by (simp add: scan_state_snoc ab update_fresh)
    then show ?thesis using False Cons.IH[of "es @ [y]"] by (simp add: insert_commute)
  qed
qed



lemma map_of_hash_nth:
  assumes "distinct (map hash es)" "j < length es"
  shows "map_of (map (\<lambda>e. (hash e, e)) es) (hash (es ! j)) = Some (es ! j)"
proof -
  have "distinct (map fst (map (\<lambda>e. (hash e, e)) es))"
    using assms(1) by (simp add: comp_def)
  moreover have "(hash (es ! j), es ! j) \<in> set (map (\<lambda>e. (hash e, e)) es)"
    using assms(2) by auto
  ultimately show ?thesis by (rule map_of_is_SomeI)
qed

lemma uniq_fill_nth:
  assumes d: "distinct (map hash es)"
    and "\<forall>p \<in> set ord. \<exists>j < length es. p = (hash (es ! j), int j)"
    and "length pw = length es"
  shows "\<exists>pw'. uniq_fill ord (length es) (map (\<lambda>e. (hash e, e)) es) pw = Some pw' \<and>
           length pw' = length es \<and>
           (\<forall>k < length es. pw' ! k =
              (if (hash (es ! (length es - 1 - k)), int (length es - 1 - k)) \<in> set ord
               then es ! (length es - 1 - k) else pw ! k))"
  using assms(2,3)
proof (induction ord arbitrary: pw)
  case Nil
  then show ?case by simp
next
  case (Cons p ord)
  let ?n = "length es"
  from Cons.prems(1) obtain j where j: "j < ?n" "p = (hash (es ! j), int j)"
    by auto
  let ?pw = "pw[?n - 1 - j := es ! j]"
  have st: "store_at pw (int ?n - int j - 1) (es ! j) = Some ?pw"
    using j(1) Cons.prems(2) by (simp add: store_at_def nat_diff_distrib') 
  have "\<forall>p \<in> set ord. \<exists>j < length es. p = (hash (es ! j), int j)"
    using Cons.prems(1) by simp
  moreover have "length ?pw = ?n" using Cons.prems(2) by simp
  ultimately obtain pw' where pw': "uniq_fill ord ?n (map (\<lambda>e. (hash e, e)) es) ?pw = Some pw'"
      "length pw' = ?n"
      "\<forall>k < ?n. pw' ! k = (if (hash (es ! (?n - 1 - k)), int (?n - 1 - k)) \<in> set ord
               then es ! (?n - 1 - k) else ?pw ! k)"
    using Cons.IH[of ?pw] by blast
  have run: "uniq_fill (p # ord) ?n (map (\<lambda>e. (hash e, e)) es) pw = Some pw'"
    using pw'(1) st by (simp add: j(2) map_of_hash_nth[OF d j(1)])
  have "pw' ! k = (if (hash (es ! (?n - 1 - k)), int (?n - 1 - k)) \<in> set (p # ord)
               then es ! (?n - 1 - k) else pw ! k)" if k: "k < ?n" for k
  proof (cases "?n - 1 - k = j")
    case True
    then have "k = ?n - 1 - j" using k j(1) by arith
    then show ?thesis
      using pw'(3) k True j Cons.prems(2) by auto
  next
    case False
    then have "k \<noteq> ?n - 1 - j" using k j(1) by arith
    then have "?pw ! k = pw ! k" by simp
    moreover have "(hash (es ! (?n - 1 - k)), int (?n - 1 - k)) \<noteq> p"
      using False j(2) by simp
    ultimately show ?thesis using pw'(3) k by auto
  qed
  with run pw'(2) show ?case by blast
qed

lemma uniq_fill_rev:
  assumes d: "distinct (map hash es)"
    and "set ord = set (zip (map hash es) (map int [0..<length es]))"
  shows "uniq_fill ord (length es) (map (\<lambda>e. (hash e, e)) es)
            (replicate (length es) zero_batchIndex) = Some (rev es)"
proof -
  have mem: "p \<in> set ord \<longleftrightarrow> (\<exists>j < length es. p = (hash (es ! j), int j))" for p
  proof
    assume "p \<in> set ord"
    then show "\<exists>j < length es. p = (hash (es ! j), int j)"
      unfolding assms(2) by (auto simp add: set_zip)
  next
    assume "\<exists>j < length es. p = (hash (es ! j), int j)"
    then obtain j where j: "j < length es" "p = (hash (es ! j), int j)" by blast
    have "p = (map hash es ! j, map int [0..<length es] ! j)"
      using j by simp
    moreover have "j < min (length (map hash es)) (length (map int [0..<length es]))"
      using j(1) by simp
    ultimately show "p \<in> set ord"
      unfolding assms(2) set_zip by blast
  qed
  then have "\<forall>p \<in> set ord. \<exists>j < length es. p = (hash (es ! j), int j)" by blast
  from uniq_fill_nth[OF d this, of "replicate (length es) zero_batchIndex"]
  obtain pw' where pw': "uniq_fill ord (length es) (map (\<lambda>e. (hash e, e)) es)
            (replicate (length es) zero_batchIndex) = Some pw'"
      "length pw' = length es"
      "\<forall>k < length es. pw' ! k =
              (if (hash (es ! (length es - 1 - k)), int (length es - 1 - k)) \<in> set ord
               then es ! (length es - 1 - k) else replicate (length es) zero_batchIndex ! k)"
    by auto
  have "pw' ! k = rev es ! k" if "k < length es" for k
  proof -
    have "length es - 1 - k < length es" using that by arith
    then have "(hash (es ! (length es - 1 - k)), int (length es - 1 - k)) \<in> set ord"
      using mem by blast
    then show ?thesis using pw'(3) that by (simp add: rev_nth)
  qed
  then have "pw' = rev es" using pw'(2) by (simp add: list_eq_iff_nth_eq)
  with pw'(1) show ?thesis by simp
qed

lemma keep_first_snoc:
  "keep_first seen (ys @ [y]) =
     keep_first seen ys @ (if hash y \<in> seen \<union> hash ` set ys then [] else [y])"
  by (induction ys arbitrary: seen) auto

lemma rev_keep_first: "rev (keep_first {} (rev xs)) = keep_last xs"
  by (induction xs) (auto simp add: keep_first_snoc)

lemma distinct_keep_first: "distinct (map hash (keep_first seen ys)) \<and> hash ` set (keep_first seen ys) = hash ` set ys - seen"
  by (induction ys arbitrary: seen) auto

lemma uniq_keep_last:
  assumes "range_order (unique_set_of idx) ord"
  shows "uniq ord idx = Some (keep_last idx)"
proof -
  let ?es = "keep_first {} (rev idx)"
  have sc: "uniq_scan (rev idx) ([], [], 0) = scan_state ?es"
    using uniq_scan_keep_first[of "rev idx" "[]"] by (simp add: scan_state_def)
  have d: "distinct (map hash ?es)" using distinct_keep_first by blast
  have "set ord = set (zip (map hash ?es) (map int [0..<length ?es]))"
    using assms by (simp add: range_order_def unique_set_of_def sc scan_state_def)
  from uniq_fill_rev[OF d this] show ?thesis
    by (simp add: uniq_def sc scan_state_def rev_keep_first)
qed


lemma last_at_head:
  "(\<forall>q \<in> {0<..<Suc (length xs)}. hash ((x # xs) ! q) \<noteq> hash ((x # xs) ! 0)) \<longleftrightarrow>
     hash x \<notin> hash ` set xs"
proof
  assume a: "\<forall>q \<in> {0<..<Suc (length xs)}. hash ((x # xs) ! q) \<noteq> hash ((x # xs) ! 0)"
  show "hash x \<notin> hash ` set xs"
  proof
    assume "hash x \<in> hash ` set xs"
    then obtain j where j: "j < length xs" "hash (xs ! j) = hash x"
      by (auto simp add: in_set_conv_nth)
    then have "Suc j \<in> {0<..<Suc (length xs)}" by simp
    with a have "hash ((x # xs) ! Suc j) \<noteq> hash ((x # xs) ! 0)" by blast
    with j(2) show False by simp
  qed
next
  assume a: "hash x \<notin> hash ` set xs"
  show "\<forall>q \<in> {0<..<Suc (length xs)}. hash ((x # xs) ! q) \<noteq> hash ((x # xs) ! 0)"
  proof
    fix q assume "q \<in> {0<..<Suc (length xs)}"
    then obtain j where j: "q = Suc j" "j < length xs" by (cases q) auto
    then have "xs ! j \<in> set xs" by simp
    then have "hash (xs ! j) \<noteq> hash x" using a by (metis imageI)
    with j show "hash ((x # xs) ! q) \<noteq> hash ((x # xs) ! 0)" by simp
  qed
qed

lemma last_at_Suc:
  "(\<forall>q \<in> {Suc p<..<Suc (length xs)}. hash ((x # xs) ! q) \<noteq> hash ((x # xs) ! Suc p)) \<longleftrightarrow>
     (\<forall>q \<in> {p<..<length xs}. hash (xs ! q) \<noteq> hash (xs ! p))"
proof
  assume a: "\<forall>q \<in> {Suc p<..<Suc (length xs)}. hash ((x # xs) ! q) \<noteq> hash ((x # xs) ! Suc p)"
  show "\<forall>q \<in> {p<..<length xs}. hash (xs ! q) \<noteq> hash (xs ! p)"
  proof
    fix q assume "q \<in> {p<..<length xs}"
    then have "Suc q \<in> {Suc p<..<Suc (length xs)}" by simp
    with a have "hash ((x # xs) ! Suc q) \<noteq> hash ((x # xs) ! Suc p)" by blast
    then show "hash (xs ! q) \<noteq> hash (xs ! p)" by simp
  qed
next
  assume a: "\<forall>q \<in> {p<..<length xs}. hash (xs ! q) \<noteq> hash (xs ! p)"
  show "\<forall>q \<in> {Suc p<..<Suc (length xs)}. hash ((x # xs) ! q) \<noteq> hash ((x # xs) ! Suc p)"
  proof
    fix q assume q: "q \<in> {Suc p<..<Suc (length xs)}"
    then obtain j where j: "q = Suc j" by (cases q) auto
    with q have "j \<in> {p<..<length xs}" by simp
    with a j show "hash ((x # xs) ! q) \<noteq> hash ((x # xs) ! Suc p)" by simp
  qed
qed

lemma keep_last_positions:
  "keep_last xs =
     map (\<lambda>p. xs ! p)
       (filter (\<lambda>p. \<forall>q \<in> {p<..<length xs}. hash (xs ! q) \<noteq> hash (xs ! p)) [0..<length xs])"
proof (induction xs)
  case Nil
  show ?case by simp
next
  case (Cons x xs)
  let ?P = "\<lambda>ys p. \<forall>q \<in> {p<..<length ys}. hash (ys ! q) \<noteq> hash (ys ! p)"
  have up: "[0..<length (x # xs)] = 0 # map Suc [0..<length xs]"
    by (simp add: upt_conv_Cons map_Suc_upt del: upt_Suc)
  have P0: "?P (x # xs) 0 \<longleftrightarrow> hash x \<notin> hash ` set xs"
    using last_at_head[of xs x] by simp
  have PS: "?P (x # xs) (Suc p) \<longleftrightarrow> ?P xs p" for p
    using last_at_Suc[of p xs x] by simp
  have "filter (?P (x # xs)) (map Suc [0..<length xs]) = map Suc (filter (?P xs) [0..<length xs])"
    unfolding filter_map comp_def PS ..
  then have fl: "filter (?P (x # xs)) [0..<length (x # xs)] =
      (if hash x \<in> hash ` set xs then [] else [0]) @ map Suc (filter (?P xs) [0..<length xs])"
    unfolding up using P0 by simp
  have "map (\<lambda>p. (x # xs) ! p) (filter (?P (x # xs)) [0..<length (x # xs)]) =
      (if hash x \<in> hash ` set xs then [] else [x]) @ map (\<lambda>p. xs ! p) (filter (?P xs) [0..<length xs])"
    unfolding fl by (simp add: comp_def)
  then show ?case using Cons.IH by simp
qed

lemma keep_last_hashes:
  "distinct (map hash (keep_last xs)) \<and> hash ` set (keep_last xs) = hash ` set xs"
  by (induction xs) auto

section \<open>Claims on deduplication\<close>

text \<open>
  C1. Whatever the index of the batch (that is, whatever sequence of Put and Delete
  appends built it) and in whatever order Go enumerates \<^verbatim>\<open>unique_set\<close>, \<open>uniq\<close>
  returns without a panic, and what it returns is the list of the entries that are the last
  of their hash, taken in the order of their positions in the index. It has exactly one
  entry for each hash of the index.
\<close>

theorem uniq_last_per_hash_in_order:
  assumes "range_order (unique_set_of idx) ord"
  shows "\<exists>pw. uniq ord idx = Some pw \<and>
           pw = map (\<lambda>p. idx ! p)
                  (filter (\<lambda>p. \<forall>q \<in> {p<..<length idx}. hash (idx ! q) \<noteq> hash (idx ! p))
                     [0..<length idx]) \<and>
           distinct (map hash pw) \<and> hash ` set pw = hash ` set idx"
proof -
  have "uniq ord idx = Some (keep_last idx)"
    using assms by (rule uniq_keep_last)
  moreover note keep_last_positions[of idx] keep_last_hashes[of idx]
  ultimately show ?thesis by simp
qed

theorem uniq_last_per_hash_in_order_witness:
  "range_order (unique_set_of ex_index) [(1, 2), (2, 0), (3, 1)] \<and>
   uniq [(1, 2), (2, 0), (3, 1)] ex_index = Some [ex_entry 1 11, ex_entry 3 30, ex_entry 2 21]"
proof -
  have h: "range_order (unique_set_of ex_index) [(1, 2), (2, 0), (3, 1)]"
    by (auto simp add: range_order_def unique_set_of_def ex_index_def ex_entry_def
          zero_batchIndex_def)
  have "keep_last ex_index = [ex_entry 1 11, ex_entry 3 30, ex_entry 2 21]"
    by (simp add: ex_index_def ex_entry_def zero_batchIndex_def)
  then show ?thesis
    using h uniq_last_per_hash_in_order [OF h] by (simp add: keep_last_positions [symmetric])
qed


section \<open>Staging lemmas\<close>

lemma mem_put_Inr:
  "mem_put env m h k v e = Inr m1 \<Longrightarrow>
     m1 = m\<lparr>table := table m @ [\<lparr>m_hash = h, m_key = k, m_value = v, m_expiresAt = e\<rparr>],
            mem_count := mem_count m + 1\<rparr>"
  by (auto simp add: mem_put_def Let_def split: option.splits)

lemma mem_split_Inr:
  "mem_split env m = Inr m1 \<Longrightarrow> m1 = m\<lparr>nBuckets := nBuckets m + 1\<rparr>"
  by (auto simp add: mem_split_def split: option.splits)

lemma mput_ok:
  assumes "mput env dFlag h ex key val b = (None, b')"
  shows "\<exists>m ik m'. mem b = Some m \<and> seq m + 1 \<le> keyMaxSeq \<and>
           makeInternalKey [] key (seq m + 1) dFlag ex = Inr ik \<and>
           mem b' = Some m' \<and> seq m' = seq m + 1 \<and>
           table m' = table m @ [\<lparr>m_hash = h, m_key = ik, m_value = val, m_expiresAt = ex\<rparr>] \<and>
           firstKeyHash b' = (if firstKeyHash b = 0 then h else firstKeyHash b) \<and>
           data b' = data b \<and> index b' = index b \<and> batchSeq b' = batchSeq b \<and>
           key \<noteq> [] \<and> length key \<le> MaxKeyLength env \<and> length val \<le> MaxValueLength env"
proof -
  from assms obtain m where m: "mem b = Some m"
    by (auto simp add: mput_def split: if_splits option.splits)
  from assms m obtain ik where ik: "makeInternalKey [] key (seq m + 1) dFlag ex = Inr ik"
    by (auto simp add: mput_def split: if_splits sum.splits)
  then have le: "seq m + 1 \<le> keyMaxSeq"
    using makeInternalKey_panics[of "seq m + 1" "[]" key dFlag ex] by auto
  from assms m ik obtain m1 where m1: "mem_put env m h ik val ex = Inr m1"
    by (auto simp add: mput_def split: if_splits sum.splits)
  from assms m ik m1 obtain m2 where
    m2: "(if loadExceeded env m1 then mem_split env m1 else Inr m1) = Inr m2"
    by (auto simp add: mput_def split: if_splits sum.splits)
  have t2: "table m2 = table m1 \<and> seq m2 = seq m1"
    using m2 by (auto dest!: mem_split_Inr split: if_splits)
  have t1: "table m1 = table m @ [\<lparr>m_hash = h, m_key = ik, m_value = val, m_expiresAt = ex\<rparr>]
        \<and> seq m1 = seq m"
    using mem_put_Inr[OF m1] by simp
  have b': "b' = b\<lparr>firstKeyHash := (if firstKeyHash b = 0 then h else firstKeyHash b),
                    mem := Some (m2\<lparr>seq := seq m2 + 1\<rparr>)\<rparr>"
    using assms m ik m1 m2 by (simp add: mput_def split: if_splits)
  have chk: "key \<noteq> [] \<and> length key \<le> MaxKeyLength env \<and> length val \<le> MaxValueLength env"
    using assms by (auto simp add: mput_def split: if_splits)
  show ?thesis
    using m le ik t1 t2 chk by (simp add: b')
qed

lemma mput_err:
  assumes "mput env dFlag h ex key val b = (Some e, b')" and "mem b = Some m"
  shows "\<exists>m'. mem b' = Some m' \<and> seq m' = seq m \<and>
           (table m' = table m \<or> (\<exists>r. table m' = table m @ [r])) \<and>
           firstKeyHash b' = firstKeyHash b \<and>
           data b' = data b \<and> index b' = index b \<and> batchSeq b' = batchSeq b"
  using assms
  by (auto simp add: mput_def split: if_splits sum.splits dest!: mem_put_Inr mem_split_Inr)


lemma staged_seq_make:
  assumes "makeInternalKey dst key sq d ex = Inr ik"
  shows "parseInternalKey ik = (key, sq, d, ex, None)"
    and "staged_seq \<lparr>m_hash = h, m_key = ik, m_value = v, m_expiresAt = e\<rparr> = sq"
proof -
  have le: "sq \<le> keyMaxSeq"
    using assms makeInternalKey_panics[of sq dst key d ex] by auto
  from parse_make[OF le, of dst key d ex] assms
  show p: "parseInternalKey ik = (key, sq, d, ex, None)" by auto
  then show "staged_seq \<lparr>m_hash = h, m_key = ik, m_value = v, m_expiresAt = e\<rparr> = sq"
    by (simp add: staged_seq_def)
qed

lemma loop_ok:
  assumes "writeInternal_loop (\<lambda>i. mput env) i pw b = (None, b')" and "mem b = Some m"
  shows "\<exists>m' recs. mem b' = Some m' \<and> seq m' = seq m + of_nat (length pw) \<and>
           table m' = table m @ recs \<and> length recs = length pw \<and>
           (\<forall>j < length pw. seq m + of_nat (Suc j) \<le> keyMaxSeq \<and>
               staged_seq (recs ! j) = seq m + of_nat (Suc j) \<and>
               staged_from (pw ! j) (data b) (seq m + of_nat (Suc j)) (recs ! j)) \<and>
           firstKeyHash b' = fold (\<lambda>h f. if f = 0 then h else f) (map hash pw) (firstKeyHash b) \<and>
           data b' = data b \<and> index b' = index b \<and> batchSeq b' = batchSeq b"
  using assms
proof (induction pw arbitrary: i b m)
  case Nil
  then show ?case by simp
next
  case (Cons ix rest)
  from Cons.prems(1) obtain key val where kv: "kv ix (data b) = Some (key, val)"
    by (auto split: option.splits)
  from Cons.prems(1) kv obtain b1 where
    step: "mput env (delFlag ix) (hash ix) (expiresAt ix) key val b = (None, b1)"
    and rest: "writeInternal_loop (\<lambda>i. mput env) (Suc i) rest b1 = (None, b')"
    by (auto split: prod.splits option.splits)
  from mput_ok[OF step] Cons.prems(2) obtain ik m1 where
    le: "seq m + 1 \<le> keyMaxSeq"
    and ik: "makeInternalKey [] key (seq m + 1) (delFlag ix) (expiresAt ix) = Inr ik"
    and m1: "mem b1 = Some m1" "seq m1 = seq m + 1"
      "table m1 = table m @ [\<lparr>m_hash = hash ix, m_key = ik, m_value = val, m_expiresAt = expiresAt ix\<rparr>]"
    and fk: "firstKeyHash b1 = (if firstKeyHash b = 0 then hash ix else firstKeyHash b)"
    and same: "data b1 = data b" "index b1 = index b" "batchSeq b1 = batchSeq b"
    by auto
  let ?r = "\<lparr>m_hash = hash ix, m_key = ik, m_value = val, m_expiresAt = expiresAt ix\<rparr>"
  from Cons.IH[OF rest m1(1)] obtain m' recs where
    IH: "mem b' = Some m'" "seq m' = seq m1 + of_nat (length rest)"
      "table m' = table m1 @ recs" "length recs = length rest"
      "\<forall>j < length rest. seq m1 + of_nat (Suc j) \<le> keyMaxSeq \<and>
               staged_seq (recs ! j) = seq m1 + of_nat (Suc j) \<and>
               staged_from (rest ! j) (data b1) (seq m1 + of_nat (Suc j)) (recs ! j)"
      "firstKeyHash b' = fold (\<lambda>h f. if f = 0 then h else f) (map hash rest) (firstKeyHash b1)"
      "data b' = data b1" "index b' = index b1" "batchSeq b' = batchSeq b1"
    by blast
  have r: "staged_seq ?r = seq m + 1"
    using staged_seq_make(2)[OF ik] by simp
  have sf: "staged_from ix (data b) (seq m + 1) ?r"
    using kv staged_seq_make(1)[OF ik] by (simp add: staged_from_def)
  have all: "seq m + of_nat (Suc j) \<le> keyMaxSeq \<and>
               staged_seq ((?r # recs) ! j) = seq m + of_nat (Suc j) \<and>
               staged_from ((ix # rest) ! j) (data b) (seq m + of_nat (Suc j)) ((?r # recs) ! j)"
    if "j < length (ix # rest)" for j
  proof (cases j)
    case 0
    then show ?thesis using le r sf by simp
  next
    case (Suc k)
    then have "k < length rest" using that by simp
    with IH(5) m1(2) same(1) Suc show ?thesis by (simp add: add.assoc)
  qed
  have "mem b' = Some m' \<and> seq m' = seq m + of_nat (length (ix # rest)) \<and>
        table m' = table m @ (?r # recs) \<and> length (?r # recs) = length (ix # rest)"
    using IH(1-4) m1 by (simp add: add.assoc)
  moreover have "firstKeyHash b' =
      fold (\<lambda>h f. if f = 0 then h else f) (map hash (ix # rest)) (firstKeyHash b)"
    using IH(6) fk by simp
  moreover have "data b' = data b \<and> index b' = index b \<and> batchSeq b' = batchSeq b"
    using IH(7-9) same by simp
  ultimately show ?case using all by blast
qed

lemma loop_first_error:
  assumes "writeInternal_loop fn i pw b = (Some e, b')"
  shows "\<exists>k bk. k < length pw \<and> writeInternal_loop fn i (take k pw) b = (None, bk) \<and>
           writeInternal_loop fn (i + k) [pw ! k] bk = (Some e, b')"
  using assms
proof (induction pw arbitrary: i b)
  case Nil
  then show ?case by simp
next
  case (Cons ix rest)
  show ?case
  proof (cases "writeInternal_loop fn i [ix] b")
    case (Pair r b1)
    show ?thesis
    proof (cases r)
      case None
      with Pair have one: "writeInternal_loop fn i [ix] b = (None, b1)" by simp
      then have rest: "writeInternal_loop fn (Suc i) rest b1 = (Some e, b')"
        using Cons.prems by (auto split: option.splits prod.splits)
      from Cons.IH[OF rest] obtain k bk where k: "k < length rest"
        "writeInternal_loop fn (Suc i) (take k rest) b1 = (None, bk)"
        "writeInternal_loop fn (Suc i + k) [rest ! k] bk = (Some e, b')"
        by blast
      have "writeInternal_loop fn i (take (Suc k) (ix # rest)) b = (None, bk)"
        using one k(2) by (auto split: option.splits prod.splits)
      moreover have "writeInternal_loop fn (i + Suc k) [(ix # rest) ! Suc k] bk = (Some e, b')"
        using k(3) by simp
      ultimately show ?thesis using k(1)
        by (intro exI[of _ "Suc k"] exI[of _ bk]) simp
    next
      case (Some e1)
      with Pair have one: "writeInternal_loop fn i [ix] b = (Some e1, b1)" by simp
      then have "writeInternal_loop fn i (ix # rest) b = (Some e1, b1)"
        by (auto split: option.splits prod.splits)
      with Cons.prems have "e1 = e" "b1 = b'" by simp_all
      with one show ?thesis
        by (intro exI[of _ 0] exI[of _ b]) simp
    qed
  qed
qed

lemma step_err:
  assumes "writeInternal_loop (\<lambda>i. mput env) i [ix] bk = (Some e, b')" and "mem bk = Some mk"
  shows "\<exists>m'. mem b' = Some m' \<and> seq m' = seq mk \<and>
           (table m' = table mk \<or> (\<exists>r. table m' = table mk @ [r])) \<and>
           firstKeyHash b' = firstKeyHash bk \<and>
           data b' = data bk \<and> index b' = index bk \<and> batchSeq b' = batchSeq bk"
proof (cases "kv ix (data bk)")
  case None
  with assms show ?thesis by simp
next
  case (Some p)
  obtain key val where p: "p = (key, val)" by (cases p)
  from assms(1) Some p have "mput env (delFlag ix) (hash ix) (expiresAt ix) key val bk = (Some e, b')"
    by (auto split: option.splits prod.splits)
  from mput_err[OF this assms(2)] show ?thesis .
qed

lemma below_max_less_succ:
  assumes "(x::u64) \<le> keyMaxSeq"
  shows "x < x + 1"
proof -
  have "keyMaxSeq < (- 1 :: u64)" by (simp add: keyMaxSeq_def)
  with assms have "x < - 1" by (rule le_less_trans)
  then have "x \<noteq> - 1" by blast
  then have "\<not> x + 1 \<le> x" by (simp only: inc_less_eq_self_iff_eq not_False_eq_True)
  then show ?thesis by (simp only: not_le)
qed

lemma seqs_sorted:
  assumes "\<forall>j < n. (a::u64) + of_nat (Suc j) \<le> keyMaxSeq"
  shows "sorted_wrt (<) (map (\<lambda>j. a + of_nat (Suc j)) [0..<n])"
proof -
  let ?xs = "map (\<lambda>j. a + of_nat (Suc j)) [0..<n]"
  have "?xs ! i < ?xs ! Suc i" if "Suc i < length ?xs" for i
  proof -
    from that have i: "Suc i < n" by simp
    then have "a + of_nat (Suc i) \<le> keyMaxSeq" using assms by simp
    then have "a + of_nat (Suc i) < a + of_nat (Suc i) + 1"
      by (rule below_max_less_succ)
    moreover have "a + of_nat (Suc i) + 1 = a + of_nat (Suc (Suc i))" by simp
    ultimately have "a + of_nat (Suc i) < a + of_nat (Suc (Suc i))" by (simp only:)
    then show ?thesis using i by (simp del: of_nat_Suc)
  qed
  then show ?thesis
    by (subst sorted_wrt_iff_nth_Suc_transp) (auto simp add: transp_def)
qed

lemma fold_first_nonzero:
  "fold (\<lambda>h f. if f = 0 then h else f) hs (f0::u32) =
     (if f0 \<noteq> 0 then f0 else case filter (\<lambda>h. h \<noteq> 0) hs of [] \<Rightarrow> 0 | h # _ \<Rightarrow> h)"
  by (induction hs arbitrary: f0) auto

lemma Write_unfold:
  assumes "Write env ord b db = Some (r, b', db')"
  shows "writeLockC db = 0 \<and> db' = db\<lparr>writeLockC := 1\<rparr> \<and>
         (\<exists>m. mem b = Some m \<and> writeInternal ord (\<lambda>i. mput env) (b\<lparr>batchSeq := seq m\<rparr>) = (r, b')
            \<or> mem b = None \<and> r = Some (panic ''nil pointer dereference'') \<and> b' = b)"
  using assms
  by (auto simp add: Write_def writeLockC_cap_def Let_def split: if_splits option.splits prod.splits)

lemma appendRec_firstKeyHash:
  "firstKeyHash (appendRec env dFlag ex key val b) = firstKeyHash b"
  by (simp add: appendRec_def Let_def)

lemma apply_append_firstKeyHash:
  "firstKeyHash (apply_append env op b) = firstKeyHash b"
  by (cases op) (simp_all add: Put_def PutWithTTL_def Delete_def appendRec_firstKeyHash)

lemma appends_firstKeyHash: "firstKeyHash (appends env ops b) = firstKeyHash b"
  unfolding appends_def
  by (induction ops arbitrary: b) (simp_all add: apply_append_firstKeyHash)

lemma mput_err_firstKeyHash:
  "mput env d h e k v b1 = (Some er, b2) \<Longrightarrow> firstKeyHash b2 = firstKeyHash b1"
  by (auto simp add: mput_def split: if_splits option.splits sum.splits)

section \<open>Claims on staging\<close>

text \<open>
  C7. \<^verbatim>\<open>mput\<close> with an empty key returns \<open>errKeyEmpty\<close>; otherwise with a key longer
  than \<open>MaxKeyLength\<close> it returns \<open>errKeyTooLarge\<close>; otherwise with a value longer than
  \<open>MaxValueLength\<close> it returns \<open>errValueTooLarge\<close>. In each case the batch comes back as
  it was, and with it the memdb: its records and its \<open>seq\<close> counter.
\<close>

theorem mput_validation_errors:
  "(length key = 0 \<longrightarrow> mput env dFlag h ex key val b = (Some errKeyEmpty, b)) \<and>
   (length key \<noteq> 0 \<and> length key > MaxKeyLength env \<longrightarrow>
      mput env dFlag h ex key val b = (Some errKeyTooLarge, b)) \<and>
   (length key \<noteq> 0 \<and> \<not> length key > MaxKeyLength env \<and> length val > MaxValueLength env \<longrightarrow>
      mput env dFlag h ex key val b = (Some errValueTooLarge, b))"
  by (simp add: mput_def)

theorem mput_validation_errors_witness:
  "mput ex_env False 0 0 [] [49] ex_batch = (Some errKeyEmpty, ex_batch) \<and>
   mput ex_env False 97 0 (replicate 9 97) [49] ex_batch = (Some errKeyTooLarge, ex_batch) \<and>
   mput ex_env False 97 0 [97] (replicate 17 49) ex_batch = (Some errValueTooLarge, ex_batch)"
proof -
  have k0: "length ([] :: bytes) = 0" by simp
  have k1: "length (replicate 9 (97 :: byte)) \<noteq> 0 \<and>
            length (replicate 9 (97 :: byte)) > MaxKeyLength ex_env"
    by (simp add: ex_env_def)
  have k2: "length [97 :: byte] \<noteq> 0 \<and> \<not> length [97 :: byte] > MaxKeyLength ex_env \<and>
            length (replicate 17 (49 :: byte)) > MaxValueLength ex_env"
    by (simp add: ex_env_def)
  show ?thesis
    using k0 k1 k2
      mput_validation_errors [of "[]" ex_env False 0 0 "[49]" ex_batch]
      mput_validation_errors [of "replicate 9 97" ex_env False 97 0 "[49]" ex_batch]
      mput_validation_errors [of "[97]" ex_env False 97 0 "replicate 17 49" ex_batch]
    by blast
qed

text \<open>
  C2. When \<^verbatim>\<open>Write\<close> returns without an error, the memdb has gained exactly one record
  for each of the \<open>m\<close> deduplicated entries, in their order; the record of entry number \<open>j\<close>
  (counted from 1) carries the sequence number \<open>batchSeq + j\<close>, where \<open>batchSeq\<close> is the
  \<open>seq\<close> of the memdb when \<^verbatim>\<open>Write\<close> was called. The sequence numbers are strictly
  increasing, and \<open>seq\<close> ends at \<open>batchSeq + m\<close>.
\<close>

theorem Write_contiguous_seqs:
  assumes "Write env ord b db = Some (None, b', db')"
  shows "\<exists>m pw m' recs.
           mem b = Some m \<and> uniq ord (index b) = Some pw \<and> mem b' = Some m' \<and>
           batchSeq b' = seq m \<and>
           table m' = table m @ recs \<and> length recs = length pw \<and>
           (\<forall>j < length pw. staged_seq (recs ! j) = batchSeq b' + of_nat (j + 1) \<and>
                             staged_from (pw ! j) (data b) (batchSeq b' + of_nat (j + 1))
                               (recs ! j)) \<and>
           sorted_wrt (<) (map staged_seq recs) \<and>
           seq m' = batchSeq b' + of_nat (length pw)"
proof -
  from Write_unfold[OF assms] obtain m where m: "mem b = Some m"
    and wi: "writeInternal ord (\<lambda>i. mput env) (b\<lparr>batchSeq := seq m\<rparr>) = (None, b')"
    by auto
  from wi obtain pw where pw: "uniq ord (index b) = Some pw"
    and lp: "writeInternal_loop (\<lambda>i. mput env) 0 pw (b\<lparr>batchSeq := seq m\<rparr>) = (None, b')"
    by (auto simp add: writeInternal_def split: option.splits)
  have "mem (b\<lparr>batchSeq := seq m\<rparr>) = Some m" using m by simp
  from loop_ok[OF lp this] obtain m' recs where
    r: "mem b' = Some m'" "seq m' = seq m + of_nat (length pw)"
      "table m' = table m @ recs" "length recs = length pw"
      "\<forall>j < length pw. seq m + of_nat (Suc j) \<le> keyMaxSeq \<and>
               staged_seq (recs ! j) = seq m + of_nat (Suc j) \<and>
               staged_from (pw ! j) (data b) (seq m + of_nat (Suc j)) (recs ! j)"
      "batchSeq b' = seq m"
    by auto
  have "map staged_seq recs = map (\<lambda>j. seq m + of_nat (Suc j)) [0..<length pw]"
  proof (rule nth_equalityI)
    show "length (map staged_seq recs) = length (map (\<lambda>j. seq m + of_nat (Suc j)) [0..<length pw])"
      using r(4) by simp
  next
    fix i
    assume "i < length (map staged_seq recs)"
    then have i: "i < length pw" using r(4) by simp
    then have "staged_seq (recs ! i) = seq m + of_nat (Suc i)" using r(5) by blast
    then show "map staged_seq recs ! i = map (\<lambda>j. seq m + of_nat (Suc j)) [0..<length pw] ! i"
      using i r(4) by (simp del: of_nat_Suc)
  qed
  moreover have "sorted_wrt (<) (map (\<lambda>j. seq m + of_nat (Suc j)) [0..<length pw])"
    using r(5) by (intro seqs_sorted) simp
  ultimately have "sorted_wrt (<) (map staged_seq recs)" by simp
  with m pw r show ?thesis by simp
qed

theorem Write_contiguous_seqs_witness:
  "\<exists>b' db'. Write ex_env ex_ord3 ex_batch3 ex_db = Some (None, b', db') \<and>
     batchSeq b' = 7 \<and>
     (\<exists>m'. mem b' = Some m' \<and> map staged_seq (table m') = [8, 9] \<and> seq m' = 9 \<and>
            sorted_wrt (<) (map staged_seq (table m')))"
proof -
  have "case Write ex_env ex_ord3 ex_batch3 ex_db of
          Some (None, b', db') \<Rightarrow>
            batchSeq b' = 7 \<and>
            (case mem b' of Some m' \<Rightarrow> map staged_seq (table m') = [8, 9] \<and> seq m' = 9
             | None \<Rightarrow> False)
        | _ \<Rightarrow> False"
    by code_simp
  then obtain b' db' m' where run: "Write ex_env ex_ord3 ex_batch3 ex_db = Some (None, b', db')"
    and ev: "batchSeq b' = 7" "mem b' = Some m'" "map staged_seq (table m') = [8, 9]" "seq m' = 9"
    by (auto split: option.splits prod.splits)
  have "mem ex_batch3 = Some ex_mem \<and> table ex_mem = []"
    by code_simp
  with Write_contiguous_seqs [OF run] ev(2) have "sorted_wrt (<) (map staged_seq (table m'))"
    by auto
  with run ev show ?thesis by auto
qed

text \<open>
  C9. When \<^verbatim>\<open>Write\<close> returns an error (or panics), some entry number \<open>k + 1\<close> of the
  deduplicated entries was the first whose staging failed, and the run stopped there with
  that error. Nothing is rolled back: the records of the first \<open>k\<close> entries are still in the
  memdb with their sequence numbers \<open>batchSeq + 1 ... batchSeq + k\<close> (after them there is
  at most the record of the failing entry itself, which is the case when \<^verbatim>\<open>put\<close> succeeded
  and \<^verbatim>\<open>split\<close> failed), \<open>seq\<close> is advanced by \<open>k\<close>, and the writer gate holds its token.
\<close>

theorem Write_error_keeps_staged:
  assumes "Write env ord b db = Some (Some e, b', db')"
    and "mem b = Some m"
    and "uniq ord (index b) = Some pw"
  shows "writeLockC db' = 1 \<and>
         (\<exists>k < length pw. \<exists>bk m' recs extra.
            writeInternal_loop (\<lambda>i. mput env) 0 (take k pw) (b\<lparr>batchSeq := seq m\<rparr>) = (None, bk) \<and>
            writeInternal_loop (\<lambda>i. mput env) k [pw ! k] bk = (Some e, b') \<and>
            mem b' = Some m' \<and> batchSeq b' = seq m \<and>
            seq m' = seq m + of_nat k \<and>
            table m' = table m @ recs @ extra \<and> length recs = k \<and> length extra \<le> 1 \<and>
            (\<forall>j < k. staged_seq (recs ! j) = seq m + of_nat (j + 1) \<and>
                      staged_from (pw ! j) (data b) (seq m + of_nat (j + 1)) (recs ! j)))"
proof -
  let ?b0 = "b\<lparr>batchSeq := seq m\<rparr>"
  from Write_unfold[OF assms(1)] assms(2) have lock: "writeLockC db' = 1"
    and wi: "writeInternal ord (\<lambda>i. mput env) ?b0 = (Some e, b')"
    by auto
  from wi assms(3) have lp: "writeInternal_loop (\<lambda>i. mput env) 0 pw ?b0 = (Some e, b')"
    by (simp add: writeInternal_def)
  from loop_first_error[OF lp] obtain k bk where k: "k < length pw"
    and pre: "writeInternal_loop (\<lambda>i. mput env) 0 (take k pw) ?b0 = (None, bk)"
    and fail: "writeInternal_loop (\<lambda>i. mput env) k [pw ! k] bk = (Some e, b')"
    by auto
  have m0: "mem ?b0 = Some m" using assms(2) by simp
  from loop_ok[OF pre m0] k obtain mk recs where
    mk: "mem bk = Some mk" "seq mk = seq m + of_nat k" "table mk = table m @ recs"
      "length recs = k"
      "\<forall>j < k. staged_seq (recs ! j) = seq m + of_nat (Suc j) \<and>
               staged_from (pw ! j) (data b) (seq m + of_nat (Suc j)) (recs ! j)"
      "batchSeq bk = seq m"
    by (auto simp add: min_def)
  from step_err[OF fail mk(1)] obtain m' where
    m': "mem b' = Some m'" "seq m' = seq mk"
      "table m' = table mk \<or> (\<exists>r. table m' = table mk @ [r])" "batchSeq b' = batchSeq bk"
    by auto
  from m'(3) obtain extra where ex: "table m' = table mk @ extra" "length extra \<le> 1"
    by (auto intro: that[of "[]"])
  have "\<exists>bk m' recs extra.
            writeInternal_loop (\<lambda>i. mput env) 0 (take k pw) ?b0 = (None, bk) \<and>
            writeInternal_loop (\<lambda>i. mput env) k [pw ! k] bk = (Some e, b') \<and>
            mem b' = Some m' \<and> batchSeq b' = seq m \<and>
            seq m' = seq m + of_nat k \<and>
            table m' = table m @ recs @ extra \<and> length recs = k \<and> length extra \<le> 1 \<and>
            (\<forall>j < k. staged_seq (recs ! j) = seq m + of_nat (j + 1) \<and>
                      staged_from (pw ! j) (data b) (seq m + of_nat (j + 1)) (recs ! j))"
    using pre fail m'(1,2,4) mk ex by (intro exI[of _ bk] exI[of _ m'] exI[of _ recs] exI[of _ extra]) simp
  with lock k show ?thesis by blast
qed

theorem Write_error_keeps_staged_witness:
  "\<exists>b' db' pw. Write ex_env ex_ord_bad ex_batch_bad ex_db = Some (Some errKeyEmpty, b', db') \<and>
     mem ex_batch_bad = Some ex_mem \<and> uniq ex_ord_bad (index ex_batch_bad) = Some pw \<and>
     length pw = 3 \<and> writeLockC db' = 1 \<and>
     (\<exists>m'. mem b' = Some m' \<and> seq m' = 8 \<and> map staged_seq (table m') = [8])"
proof -
  have "case Write ex_env ex_ord_bad ex_batch_bad ex_db of
          Some (Some e, b', db') \<Rightarrow>
            e = errKeyEmpty \<and>
            (case mem b' of Some m' \<Rightarrow> seq m' = 8 \<and> map staged_seq (table m') = [8]
             | None \<Rightarrow> False)
        | _ \<Rightarrow> False"
    by code_simp
  then obtain b' db' m' where
    run: "Write ex_env ex_ord_bad ex_batch_bad ex_db = Some (Some errKeyEmpty, b', db')"
    and ev: "mem b' = Some m'" "seq m' = 8" "map staged_seq (table m') = [8]"
    by (auto split: option.splits prod.splits)
  have m: "mem ex_batch_bad = Some ex_mem"
    by code_simp
  have "case uniq ex_ord_bad (index ex_batch_bad) of Some pw \<Rightarrow> length pw = 3 | None \<Rightarrow> False"
    by code_simp
  then obtain pw where pw: "uniq ex_ord_bad (index ex_batch_bad) = Some pw" "length pw = 3"
    by (auto split: option.splits)
  from Write_error_keeps_staged [OF run m pw(1)] have "writeLockC db' = 1" by blast
  with run m pw ev show ?thesis by auto
qed


text \<open>
  C8. The spec has \<^verbatim>\<open>appendRec\<close> set \<open>firstKeyHash\<close>. In the code \<^verbatim>\<open>appendRec\<close>
  never assigns it: on a fresh batch it is still 0 after a put of the key \<open>a\<close>, whose hash
  is 97.
\<close>

theorem appendRec_leaves_firstKeyHash_counterexample:
  "firstKeyHash ex_batch = 0 \<and>
   firstKeyHash (Put ex_env [97] [49] ex_batch) = 0 \<and>
   mem_hash ex_env [97] = 97"
  by (simp add: ex_batch_def ex_env_def ex_hash_def Put_def PutWithTTL_def appendRec_def Let_def)

text \<open>
  C8, as the code has it. \<^verbatim>\<open>appendRec\<close> leaves \<open>firstKeyHash\<close> as it is, whatever its
  value, and so does every sequence of \<^verbatim>\<open>Put\<close>, \<^verbatim>\<open>PutWithTTL\<close> and \<^verbatim>\<open>Delete\<close>
  appends. \<open>firstKeyHash\<close> is set at staging: an \<^verbatim>\<open>mput\<close> that returns nil sets it to
  the hash it is given if it is 0 and leaves it otherwise; an \<^verbatim>\<open>mput\<close> that returns an
  error leaves it. So after a \<^verbatim>\<open>Write\<close> without error a \<open>firstKeyHash\<close> that was not 0
  is as before, and one that was 0 is the hash of the first deduplicated entry whose hash
  is not 0; it is 0 when there is none, as for an empty batch.
\<close>

theorem firstKeyHash_set_at_staging:
  "firstKeyHash (appendRec env dFlag ex key val b) = firstKeyHash b \<and>
   firstKeyHash (appends env ops b) = firstKeyHash b \<and>
   (\<forall>d h e k v b1 b2. mput env d h e k v b1 = (None, b2) \<longrightarrow>
      firstKeyHash b2 = (if firstKeyHash b1 = 0 then h else firstKeyHash b1)) \<and>
   (\<forall>d h e k v b1 b2 er. mput env d h e k v b1 = (Some er, b2) \<longrightarrow>
      firstKeyHash b2 = firstKeyHash b1) \<and>
   (\<forall>ord db b' db' pw.
      Write env ord b db = Some (None, b', db') \<and> uniq ord (index b) = Some pw \<longrightarrow>
      firstKeyHash b' =
        (if firstKeyHash b \<noteq> 0 then firstKeyHash b
         else case filter (\<lambda>h. h \<noteq> 0) (map hash pw) of [] \<Rightarrow> 0 | h # _ \<Rightarrow> h))"
proof (intro conjI allI impI)
  show "firstKeyHash (appendRec env dFlag ex key val b) = firstKeyHash b"
    by (rule appendRec_firstKeyHash)
  show "firstKeyHash (appends env ops b) = firstKeyHash b"
    by (rule appends_firstKeyHash)
next
  fix d h e k v b1 b2
  assume "mput env d h e k v b1 = (None, b2)"
  from mput_ok[OF this]
  show "firstKeyHash b2 = (if firstKeyHash b1 = 0 then h else firstKeyHash b1)"
    by auto
next
  fix d h e k v b1 b2 er
  assume "mput env d h e k v b1 = (Some er, b2)"
  then show "firstKeyHash b2 = firstKeyHash b1"
    by (rule mput_err_firstKeyHash)
next
  fix ord db b' db' pw
  assume a: "Write env ord b db = Some (None, b', db') \<and> uniq ord (index b) = Some pw"
  from Write_unfold[of env ord b db None b' db'] a obtain m where m: "mem b = Some m"
    and wi: "writeInternal ord (\<lambda>i. mput env) (b\<lparr>batchSeq := seq m\<rparr>) = (None, b')"
    by auto
  from wi a have
    lp: "writeInternal_loop (\<lambda>i. mput env) 0 pw (b\<lparr>batchSeq := seq m\<rparr>) = (None, b')"
    by (simp add: writeInternal_def)
  have "mem (b\<lparr>batchSeq := seq m\<rparr>) = Some m" using m by simp
  from loop_ok[OF lp this] have
    "firstKeyHash b' = fold (\<lambda>h f. if f = 0 then h else f) (map hash pw) (firstKeyHash b)"
    by auto
  then show "firstKeyHash b' =
        (if firstKeyHash b \<noteq> 0 then firstKeyHash b
         else case filter (\<lambda>h. h \<noteq> 0) (map hash pw) of [] \<Rightarrow> 0 | h # _ \<Rightarrow> h)"
    by (simp only: fold_first_nonzero)
qed

theorem firstKeyHash_set_at_staging_witness:
  "appends ex_env ex_ops3 ex_batch = ex_batch3 \<and>
   firstKeyHash ex_batch = 0 \<and> firstKeyHash ex_batch3 = 0 \<and>
   mput ex_env False 97 0 [97] [49] ex_batch =
     (None, snd (mput ex_env False 97 0 [97] [49] ex_batch)) \<and>
   firstKeyHash (snd (mput ex_env False 97 0 [97] [49] ex_batch)) = 97 \<and>
   mput ex_env False 97 0 [] [49] ex_batch3 = (Some errKeyEmpty, ex_batch3) \<and>
   (\<exists>b' db' pw. Write ex_env ex_ord3 ex_batch3 ex_db = Some (None, b', db') \<and>
      uniq ex_ord3 (index ex_batch3) = Some pw \<and>
      map hash pw = [98, 97] \<and> firstKeyHash b' = 98)"
proof -
  note t = firstKeyHash_set_at_staging [of ex_env False 0 "[97]" "[49]" ex_batch ex_ops3]
  have ap: "appends ex_env ex_ops3 ex_batch = ex_batch3"
    by (simp add: appends_def ex_ops3_def ex_batch3_def)
  have z: "firstKeyHash ex_batch = 0" by (simp add: ex_batch_def)
  from t ap z have z3: "firstKeyHash ex_batch3 = 0" by simp
  have "fst (mput ex_env False 97 0 [97] [49] ex_batch) = None" by code_simp
  then have mp: "mput ex_env False 97 0 [97] [49] ex_batch =
     (None, snd (mput ex_env False 97 0 [97] [49] ex_batch))"
    by (metis prod.collapse)
  with t z have f1: "firstKeyHash (snd (mput ex_env False 97 0 [97] [49] ex_batch)) = 97"
    by (metis (no_types, lifting))
  have me: "mput ex_env False 97 0 [] [49] ex_batch3 = (Some errKeyEmpty, ex_batch3)"
    by (simp add: mput_def)
  have "case Write ex_env ex_ord3 ex_batch3 ex_db of
          Some (None, b', db') \<Rightarrow> True | _ \<Rightarrow> False"
    by code_simp
  then obtain b' db' where run: "Write ex_env ex_ord3 ex_batch3 ex_db = Some (None, b', db')"
    by (auto split: option.splits prod.splits)
  have "case uniq ex_ord3 (index ex_batch3) of
          Some pw \<Rightarrow> map hash pw = [98, 97] | None \<Rightarrow> False"
    by code_simp
  then obtain pw where pw: "uniq ex_ord3 (index ex_batch3) = Some pw" "map hash pw = [98, 97]"
    by (auto split: option.splits)
  from firstKeyHash_set_at_staging [of ex_env False 0 "[97]" "[49]" ex_batch3 ex_ops3]
    run pw(1) have "firstKeyHash b' =
        (if firstKeyHash ex_batch3 \<noteq> 0 then firstKeyHash ex_batch3
         else case filter (\<lambda>h. h \<noteq> 0) (map hash pw) of [] \<Rightarrow> 0 | h # _ \<Rightarrow> h)"
    by blast
  with z3 pw(2) have "firstKeyHash b' = 98" by simp
  with ap z z3 mp f1 me run pw show ?thesis by auto
qed


section \<open>Commit lemmas\<close>

lemma forEachBucket_inv:
  assumes "\<And>pos h s r s'. cb pos h s = (r, s') \<Longrightarrow> P s \<Longrightarrow> P s'"
    and "P s" and "forEachBucket chain cb pos s = (r, s')"
  shows "P s'"
  using assms(2,3)
proof (induction chain arbitrary: pos s)
  case Nil
  then show ?case by simp
next
  case (Cons h rest)
  obtain stop err s1 where c: "cb pos h s = ((stop, err), s1)"
    by (metis prod.exhaust)
  have p1: "P s1" using assms(1)[OF c Cons.prems(1)] .
  show ?case
  proof (cases "stop \<or> err \<noteq> None \<or> bnext h = 0")
    case True
    with Cons.prems(2) c have "s' = s1" by (auto split: if_splits)
    with p1 show ?thesis by simp
  next
    case False
    with Cons.prems(2) c have "forEachBucket rest cb (Suc pos) s1 = (r, s')" by simp
    from Cons.IH[OF p1 this] show ?thesis .
  qed
qed

lemma bh_write_frame: "bh_write env r db = Inr db' \<Longrightarrow> gate_frame db' = gate_frame db"
  by (auto simp add: bh_write_def gate_frame_def Let_def split: prod.splits option.splits)

lemma data_free_frame: "gate_frame (data_free sz off db) = gate_frame db"
  by (simp add: data_free_def gate_frame_def)

lemma filter_Append_frame: "gate_frame (filter_Append h db) = gate_frame db"
  by (simp add: filter_Append_def gate_frame_def)

lemma writeKeyValue_frame:
  "writeKeyValue env key val db = Inr (off, db') \<Longrightarrow> gate_frame db' = gate_frame db"
  by (auto simp add: writeKeyValue_def gate_frame_def Let_def split: option.splits)

lemma count_frame: "gate_frame (db\<lparr>db_count := c\<rparr>) = gate_frame db"
  by (simp add: gate_frame_def)

lemma delete_path_frame:
  assumes "delete_path env h key st = (r, st')"
  shows "gate_frame (c_db st') = gate_frame (c_db st)"
  using assms
  by (auto simp add: delete_path_def Let_def data_free_frame count_frame
      split: if_splits prod.splits sum.splits dest!: bh_write_frame)

lemma put_cb_db: "put_cb env bidx h key pos curb st = (r, st') \<Longrightarrow> c_db st' = c_db st"
  by (auto simp add: put_cb_def Let_def split: prod.splits option.splits sum.splits if_splits)

lemma put_walk_db:
  assumes "forEachBucket chain (put_cb env bidx h key) pos st = (r, st')"
  shows "c_db st' = c_db st"
  using forEachBucket_inv[where P="\<lambda>s. c_db s = c_db st" and cb="put_cb env bidx h key", OF _ _ assms]
  by (simp add: put_cb_db)


lemma put_path_frame:
  assumes "put_path env h key val ex st = (r, st')"
  shows "gate_frame (c_db st') = gate_frame (c_db st)"
proof -
  let ?st1 = "st\<lparr>putCount := putCount st + 1\<rparr>"
  let ?bidx = "db_bucketIndex env (c_db ?st1) h"
  obtain e2 st2 where w: "forEachBucket (buckets (c_db ?st1) ?bidx) (put_cb env ?bidx h key) 0 ?st1 = (e2, st2)"
    by (metis prod.exhaust)
  have db2: "c_db st2 = c_db st" using put_walk_db[OF w] by simp
  show ?thesis
  proof (cases e2)
    case (Some e)
    with assms w have "st' = st2" by (simp add: put_path_def Let_def)
    with db2 show ?thesis by simp
  next
    case None
    note e2 = None
    show ?thesis
    proof (cases "c_bh st2")
      case None
      with assms w e2 have "st' = st2" by (simp add: put_path_def Let_def)
      with db2 show ?thesis by simp
    next
      case (Some br)
      obtain bi pos pbh where br: "br = (bi, pos, pbh)" by (cases br)
      show ?thesis
        using assms w e2 Some br db2
        by (auto simp add: put_path_def Let_def count_frame filter_Append_frame
            split: if_splits sum.splits prod.splits option.splits
            dest!: bh_write_frame writeKeyValue_frame)
    qed
  qed
qed


lemma commit_slots_frame:
  assumes "commit_slots env b m memb sls st = (r, st')"
  shows "gate_frame (c_db st') = gate_frame (c_db st)"
  using assms
proof (induction sls arbitrary: st)
  case Nil
  then show ?case by simp
next
  case (Cons memsl rest)
  show ?case
  proof (cases "e_kvOffset memsl = 0")
    case True
    with Cons.prems show ?thesis by simp
  next
    case False
    note nz = False
    show ?thesis
    proof (cases "mem_readKeyValue env m memsl")
      case (Inl err)
      with Cons.prems nz Cons.IH[of st] show ?thesis
        by (auto split: if_splits)
    next
      case (Inr kvp)
      obtain ik val where kvp: "kvp = (ik, val)" by (cases kvp)
      obtain key sq dFlag ex perr where p: "parseInternalKey ik = (key, sq, dFlag, ex, perr)"
        by (metis prod.exhaust)
      show ?thesis
      proof (cases "perr = None \<and> \<not> sq \<le> batchSeq b \<and> \<not> sq > batchSeq b + of_nat (Len b)")
        case False
        with Cons.prems nz Inr kvp p Cons.IH[of st] show ?thesis
          by (auto split: if_splits option.splits)
      next
        case True
        let ?h = "db_hash env key"
        obtain r1 st1 where d: "(if dFlag then delete_path env ?h key st
                           else put_path env ?h key val ex st) = (r1, st1)"
          by (metis prod.exhaust)
        have f1: "gate_frame (c_db st1) = gate_frame (c_db st)"
          using d delete_path_frame put_path_frame by (auto split: if_splits)
        show ?thesis
        proof (cases r1)
          case None
          with Cons.prems nz Inr kvp p True d
          have "commit_slots env b m memb rest st1 = (r, st')"
            by (simp add: Let_def)
          from Cons.IH[OF this] f1 show ?thesis by simp
        next
          case (Some rr)
          with Cons.prems nz Inr kvp p True d have "st' = st1"
            by (simp add: Let_def)
          with f1 show ?thesis by simp
        qed
      qed
    qed
  qed
qed

lemma fold_free_frame:
  "gate_frame (fold (\<lambda>(sz, off). data_free sz off) ds db) = gate_frame db"
  by (induction ds arbitrary: db) (auto simp add: data_free_frame)

lemma commit_cb_frame:
  assumes "commit_cb env b m pos memb st = (r, st')"
  shows "gate_frame (c_db st') = gate_frame (c_db st)"
  using assms
  by (auto simp add: commit_cb_def run_deferred_def fold_free_frame
      split: prod.splits dest!: commit_slots_frame)

lemma commit_chain_frame:
  assumes "forEachBucket chain (commit_cb env b m) pos st = (r, st')"
  shows "gate_frame (c_db st') = gate_frame (c_db st)"
  using forEachBucket_inv[where P="\<lambda>s. gate_frame (c_db s) = gate_frame (c_db st)"
      and cb="commit_cb env b m", OF _ _ assms]
  by (simp add: commit_cb_frame)

lemma commit_walk_frame:
  "commit_walk env b m bucketIdx st = (r, st') \<Longrightarrow> gate_frame (c_db st') = gate_frame (c_db st)"
proof (induction env b m bucketIdx st rule: commit_walk.induct)
  case (1 env b m bucketIdx st)
  show ?case
  proof (cases "bucketIdx < nBuckets m")
    case False
    with "1.prems" show ?thesis by simp
  next
    case True
    obtain e1 st1 where w: "forEachBucket (mem_chain env m bucketIdx) (commit_cb env b m) 0 st = (e1, st1)"
      by (metis prod.exhaust)
    have f1: "gate_frame (c_db st1) = gate_frame (c_db st)" using commit_chain_frame[OF w] .
    show ?thesis
    proof (cases e1)
      case None
      with "1.prems" True w have "commit_walk env b m (Suc bucketIdx) st1 = (r, st')"
        by simp
      from "1.IH"[OF True w[symmetric] None this] f1 show ?thesis by simp
    next
      case (Some e)
      with "1.prems" True w have "st' = st1" by (auto split: if_splits)
      with f1 show ?thesis by simp
    qed
  qed
qed

lemma commit_walk_not_complete:
  "commit_walk env b m bucketIdx st = (r, st') \<Longrightarrow> r \<noteq> Some errBatchSeqComplete"
proof (induction env b m bucketIdx st rule: commit_walk.induct)
  case (1 env b m bucketIdx st)
  show ?case
  proof (cases "bucketIdx < nBuckets m")
    case False
    with "1.prems" show ?thesis by auto
  next
    case True
    obtain e1 st1 where w: "forEachBucket (mem_chain env m bucketIdx) (commit_cb env b m) 0 st = (e1, st1)"
      by (metis prod.exhaust)
    show ?thesis
    proof (cases e1)
      case None
      with "1.prems" True w have "commit_walk env b m (Suc bucketIdx) st1 = (r, st')"
        by simp
      from "1.IH"[OF True w[symmetric] None this] show ?thesis .
    next
      case (Some e)
      with "1.prems" True w show ?thesis by (auto split: if_splits)
    qed
  qed
qed

lemma commit_gate:
  assumes "commit env b db = (r, db')"
  shows "writeLockC db' = writeLockC db"
proof (cases "mem b")
  case None
  with assms show ?thesis by (simp add: commit_def)
next
  case (Some m)
  let ?st0 = "\<lparr>c_db = db, delCount = 0, putCount = 0, c_bh = None, originalB = None,
                     entryIdx = 0, deferred = []\<rparr>"
  obtain e st where w: "commit_walk env b m (mem_bucketIndex env m (firstKeyHash b)) ?st0 = (e, st)"
    by (metis prod.exhaust)
  have "gate_frame (c_db st) = gate_frame db" using commit_walk_frame[OF w] by simp
  then have g: "writeLockC (c_db st) = writeLockC db" by (simp add: gate_frame_def)
  show ?thesis
    using assms Some w g by (auto simp add: commit_def Let_def split: option.splits if_splits)
qed

lemma commit_not_complete:
  assumes "commit env b db = (r, db')" and "\<And>d. sync_err env d \<noteq> Some errBatchSeqComplete"
  shows "r \<noteq> Some errBatchSeqComplete"
proof (cases "mem b")
  case None
  with assms(1) show ?thesis by (auto simp add: commit_def)
next
  case (Some m)
  let ?st0 = "\<lparr>c_db = db, delCount = 0, putCount = 0, c_bh = None, originalB = None,
                     entryIdx = 0, deferred = []\<rparr>"
  obtain e st where w: "commit_walk env b m (mem_bucketIndex env m (firstKeyHash b)) ?st0 = (e, st)"
    by (metis prod.exhaust)
  from commit_walk_not_complete[OF w] have "e \<noteq> Some errBatchSeqComplete" .
  then show ?thesis
    using assms Some w by (auto simp add: commit_def Let_def split: option.splits if_splits)
qed

lemma parse_no_error: "parseInternalKey ik = (key, sq, dFlag, ex, perr) \<Longrightarrow> perr = None"
  by (auto simp add: parseInternalKey_def Let_def split: if_splits)

lemma seq_beyond_window:
  assumes "unat (batchSeq b) + Len b < unat sq"
  shows "\<not> sq \<le> batchSeq b" and "sq > batchSeq b + of_nat (Len b)"
proof -
  show "\<not> sq \<le> batchSeq b"
    using assms by (simp add: word_le_nat_alt)
  have "unat sq < 2 ^ 64" using unsigned_less[of sq] by simp
  with assms have "unat (batchSeq b) + Len b < 2 ^ 64" by simp
  then have "unat (batchSeq b + of_nat (Len b)) = unat (batchSeq b) + Len b"
    by (simp add: unat_word_ariths unat_of_nat take_bit_nat_eq_self_iff)
  with assms show "sq > batchSeq b + of_nat (Len b)"
    by (simp add: word_less_nat_alt)
qed

lemma slot_skip:
  assumes "e_kvOffset memsl \<noteq> 0"
    and "mem_readKeyValue env m memsl = Inr (ik, val)"
    and "parseInternalKey ik = (key, sq, dFlag, ex, perr)"
    and "sq \<le> batchSeq b"
  shows "commit_slots env b m memb (memsl # rest) st = commit_slots env b m memb rest st"
  using assms parse_no_error[OF assms(3)] by simp

lemma slot_complete:
  assumes "e_kvOffset memsl \<noteq> 0"
    and "mem_readKeyValue env m memsl = Inr (ik, val)"
    and "parseInternalKey ik = (key, sq, dFlag, ex, perr)"
    and "unat (batchSeq b) + Len b < unat sq"
  shows "commit_slots env b m memb (memsl # rest) st = ((True, Some errBatchSeqComplete), st)"
  using assms(1-3) parse_no_error[OF assms(3)] seq_beyond_window[OF assms(4)] by simp

lemma chain_complete:
  assumes "commit_slots env b m h (entries h) s = ((True, Some errBatchSeqComplete), s0)"
  shows "forEachBucket (h # hs) (commit_cb env b m) pos s = (Some errBatchSeqComplete, run_deferred s0)"
  using assms by (simp add: commit_cb_def)

lemma walk_break:
  assumes "i < nBuckets m"
    and "forEachBucket (mem_chain env m i) (commit_cb env b m) 0 s = (Some errBatchSeqComplete, s1)"
  shows "commit_walk env b m i s = (None, s1)"
  using assms by simp

lemma Commit_not_complete:
  assumes "\<And>d. sync_err env d \<noteq> Some errBatchSeqComplete"
  shows "fst (commit env b db) \<noteq> Some errBatchSeqComplete"
    and "fst (Commit env b db) \<noteq> Some errBatchSeqComplete"
proof -
  show c: "fst (commit env b db) \<noteq> Some errBatchSeqComplete"
    using commit_not_complete[OF _ assms, of b db] by (cases "commit env b db") auto
  show "fst (Commit env b db) \<noteq> Some errBatchSeqComplete"
    using c by (auto simp add: Commit_def split: option.splits)
qed

lemma Commit_gate:
  assumes "Commit env b db = (r, db')"
  shows "writeLockC db' = writeLockC db"
  using assms commit_gate[of env b db r db']
  by (auto simp add: Commit_def split: if_splits option.splits)


lemma delete_path_counts:
  assumes "(ucast h :: u64) \<in> db_filter (c_db st)"
  shows "delCount (snd (delete_path env h key st)) = delCount st + 1"
  using assms
  by (auto simp add: delete_path_def Let_def split: prod.splits sum.splits)

lemma delete_path_not_found:
  assumes "(ucast h :: u64) \<in> db_filter (c_db st)"
    and "forEachBucket (buckets (c_db st) (db_bucketIndex env (c_db st) h))
           (del_cb env (c_db st) h key) 0 ((0, zero_bucketHandle env), - 1) = (None, (p, - 1))"
  shows "delete_path env h key st = (Some (False, None), st\<lparr>delCount := delCount st + 1\<rparr>)"
  using assms by (simp add: delete_path_def Let_def split: prod.splits)

lemma commit_adds_delCount:
  assumes "commit env b db = (None, db')" and "mem b = Some m"
  shows "\<exists>st. commit_walk env b m (mem_bucketIndex env m (firstKeyHash b))
               \<lparr>c_db = db, delCount = 0, putCount = 0, c_bh = None, originalB = None,
                entryIdx = 0, deferred = []\<rparr> = (None, st) \<and>
              Dels db' = Dels db + delCount st \<and> db_count db' = db_count (c_db st)"
proof -
  let ?st0 = "\<lparr>c_db = db, delCount = 0, putCount = 0, c_bh = None, originalB = None,
                     entryIdx = 0, deferred = []\<rparr>"
  obtain e st where w: "commit_walk env b m (mem_bucketIndex env m (firstKeyHash b)) ?st0 = (e, st)"
    by (metis prod.exhaust)
  have "gate_frame (c_db st) = gate_frame db" using commit_walk_frame[OF w] by simp
  then have g: "Dels (c_db st) = Dels db" by (simp add: gate_frame_def)
  have e: "e = None"
    using assms w by (auto simp add: commit_def Let_def split: option.splits if_splits)
  have "Dels db' = Dels db + delCount st \<and> db_count db' = db_count (c_db st)"
    using assms w g e by (auto simp add: commit_def Let_def split: option.splits if_splits)
  with w e show ?thesis by blast
qed

lemma Write_blocks: "writeLockC d = 1 \<Longrightarrow> Write env ord b d = None"
  by (simp add: Write_def writeLockC_cap_def)

lemma Write_proceeds: "writeLockC d = 0 \<Longrightarrow> Write env ord b d \<noteq> None"
  by (simp add: Write_def writeLockC_cap_def Let_def split: option.splits prod.splits)

lemma Abort_releases:
  "Abort ba d = Some (None, ba', da) \<Longrightarrow> writeLockC da = writeLockC d - 1 \<and> writeLockC d \<noteq> 0"
  by (auto simp add: Abort_def Let_def split: if_splits option.splits)

lemma Abort_gate:
  "Abort ba d = Some (r, ba', da) \<Longrightarrow>
     writeLockC da = (if r = None then writeLockC d - 1 else writeLockC d) \<and>
     (r = None \<longrightarrow> writeLockC d \<noteq> 0)"
  by (auto simp add: Abort_def Let_def split: if_splits option.splits)

lemma held_run:
  assumes "writeLockC d0 = 1" and "run_calls env cs d0 = Some d"
    and "\<forall>c \<in> set cs. \<not> is_Abort c"
  shows "writeLockC d = 1 \<and> (\<forall>c \<in> set cs. \<not> is_Write c)"
  using assms
proof (induction cs arbitrary: d0)
  case Nil
  then show ?case by simp
next
  case (Cons c cs)
  show ?case
  proof (cases c)
    case (CallWrite ord b)
    with Cons.prems(1,2) Write_blocks[of d0 env ord b] show ?thesis by simp
  next
    case (CallCommit b)
    obtain r d1 where cm: "Commit env b d0 = (r, d1)" by (metis prod.exhaust)
    from Commit_gate[OF cm] Cons.prems(1) have g: "writeLockC d1 = 1" by simp
    from Cons.prems(2) CallCommit cm have "run_calls env cs d1 = Some d" by simp
    from Cons.IH[OF g this] Cons.prems(3) CallCommit show ?thesis by simp
  next
    case (CallAbort b)
    with Cons.prems(3) show ?thesis by simp
  qed
qed

section \<open>Claims on the commit walk\<close>

text \<open>
  C3. Take a memdb slot that the walk reads: it is occupied, its key and value are read, and
  its internal key parses to the sequence number \<open>sq\<close>.
  \<^item> If \<open>sq \<le> batchSeq\<close> the slot is skipped: the walk goes on with the next slot of the
    handle, and the database and the counters are as before.
  \<^item> If \<open>sq > batchSeq + Len()\<close> the slot loop returns \<open>errBatchSeqComplete\<close> with the
    order to stop, again without touching anything; the chain walk ends at this handle with
    that signal; the loop over the buckets breaks on it and ends without an error.
  \<^item> \<^verbatim>\<open>commit\<close> and \<^verbatim>\<open>Commit\<close> never return \<open>errBatchSeqComplete\<close>, as long as
    \<^verbatim>\<open>db.sync\<close>, which is not among the sources at hand, does not return it.
\<close>

theorem commit_walk_seq_window:
  assumes "e_kvOffset memsl \<noteq> 0"
    and "mem_readKeyValue env m memsl = Inr (ik, val)"
    and "parseInternalKey ik = (key, sq, dFlag, ex, perr)"
  shows "(sq \<le> batchSeq b \<longrightarrow>
            commit_slots env b m memb (memsl # rest) st = commit_slots env b m memb rest st) \<and>
         (unat (batchSeq b) + Len b < unat sq \<longrightarrow>
            commit_slots env b m memb (memsl # rest) st =
              ((True, Some errBatchSeqComplete), st)) \<and>
         (\<forall>h hs pos s s0.
            commit_slots env b m h (entries h) s = ((True, Some errBatchSeqComplete), s0) \<longrightarrow>
            forEachBucket (h # hs) (commit_cb env b m) pos s =
              (Some errBatchSeqComplete, run_deferred s0)) \<and>
         (\<forall>i s s1.
            i < nBuckets m \<and>
            forEachBucket (mem_chain env m i) (commit_cb env b m) 0 s =
              (Some errBatchSeqComplete, s1) \<longrightarrow>
            commit_walk env b m i s = (None, s1)) \<and>
         ((\<forall>d. sync_err env d \<noteq> Some errBatchSeqComplete) \<longrightarrow>
            (\<forall>db. fst (commit env b db) \<noteq> Some errBatchSeqComplete \<and>
                  fst (Commit env b db) \<noteq> Some errBatchSeqComplete))"
proof (intro conjI allI impI)
  assume "sq \<le> batchSeq b"
  with assms show "commit_slots env b m memb (memsl # rest) st = commit_slots env b m memb rest st"
    by (rule slot_skip)
next
  assume "unat (batchSeq b) + Len b < unat sq"
  with assms show "commit_slots env b m memb (memsl # rest) st =
      ((True, Some errBatchSeqComplete), st)"
    by (rule slot_complete)
next
  fix h hs pos s s0
  assume "commit_slots env b m h (entries h) s = ((True, Some errBatchSeqComplete), s0)"
  then show "forEachBucket (h # hs) (commit_cb env b m) pos s =
      (Some errBatchSeqComplete, run_deferred s0)"
    by (rule chain_complete)
next
  fix i s s1
  assume "i < nBuckets m \<and>
      forEachBucket (mem_chain env m i) (commit_cb env b m) 0 s = (Some errBatchSeqComplete, s1)"
  then show "commit_walk env b m i s = (None, s1)"
    using walk_break by blast
next
  fix db
  assume a: "\<forall>d. sync_err env d \<noteq> Some errBatchSeqComplete"
  then show "fst (commit env b db) \<noteq> Some errBatchSeqComplete"
    using Commit_not_complete(1)[of env b db] by blast
  from a show "fst (Commit env b db) \<noteq> Some errBatchSeqComplete"
    using Commit_not_complete(2)[of env b db] by blast
qed




theorem commit_walk_seq_window_witness:
  "e_kvOffset (entries (hd (ex_chain ex_mem_walk 0)) ! 0) \<noteq> 0 \<and>
   mem_readKeyValue ex_env ex_mem_walk (entries (hd (ex_chain ex_mem_walk 0)) ! 0) =
     Inr (ex_ikey [120] 5 False, [49]) \<and>
   parseInternalKey (ex_ikey [120] 5 False) = ([120], 5, False, 0, None) \<and>
   5 \<le> batchSeq ex_batch_walk \<and>
   e_kvOffset (entries (hd (ex_chain ex_mem_walk 0)) ! 1) \<noteq> 0 \<and>
   mem_readKeyValue ex_env ex_mem_walk (entries (hd (ex_chain ex_mem_walk 0)) ! 1) =
     Inr (ex_ikey [122] 12 False, [50]) \<and>
   parseInternalKey (ex_ikey [122] 12 False) = ([122], 12, False, 0, None) \<and>
   unat (batchSeq ex_batch_walk) + Len ex_batch_walk < unat (12 :: u64) \<and>
   (\<forall>d. sync_err ex_env d \<noteq> Some errBatchSeqComplete) \<and>
   commit_slots ex_env ex_batch_walk ex_mem_walk (hd (ex_chain ex_mem_walk 0))
     (entries (hd (ex_chain ex_mem_walk 0)))
     \<lparr>c_db = ex_db, delCount = 0, putCount = 0, c_bh = None, originalB = None,
      entryIdx = 0, deferred = []\<rparr> =
     ((True, Some errBatchSeqComplete),
      \<lparr>c_db = ex_db, delCount = 0, putCount = 0, c_bh = None, originalB = None,
       entryIdx = 0, deferred = []\<rparr>) \<and>
   fst (Commit ex_env ex_batch_walk ex_db) = None"
proof -
  let ?h = "hd (ex_chain ex_mem_walk 0)"
  let ?st = "\<lparr>c_db = ex_db, delCount = 0, putCount = 0, c_bh = None, originalB = None,
      entryIdx = 0, deferred = []\<rparr>"
  have es: "entries ?h = [entries ?h ! 0, entries ?h ! 1, zero_entry]"
    by (simp add: ex_chain_def ex_mem_walk_def)
  have a1: "e_kvOffset (entries ?h ! 0) \<noteq> 0"
    and a2: "mem_readKeyValue ex_env ex_mem_walk (entries ?h ! 0) = Inr (ex_ikey [120] 5 False, [49])"
    and a3: "parseInternalKey (ex_ikey [120] 5 False) = ([120], 5, False, 0, None)"
    and a4: "5 \<le> batchSeq ex_batch_walk"
    by code_simp+
  have b1: "e_kvOffset (entries ?h ! 1) \<noteq> 0"
    and b2: "mem_readKeyValue ex_env ex_mem_walk (entries ?h ! 1) = Inr (ex_ikey [122] 12 False, [50])"
    and b3: "parseInternalKey (ex_ikey [122] 12 False) = ([122], 12, False, 0, None)"
    and b4: "unat (batchSeq ex_batch_walk) + Len ex_batch_walk < unat (12 :: u64)"
    by code_simp+
  have s: "\<forall>d. sync_err ex_env d \<noteq> Some errBatchSeqComplete"
    by (simp add: ex_env_def)
  have skip: "commit_slots ex_env ex_batch_walk ex_mem_walk ?h (entries ?h) ?st =
      commit_slots ex_env ex_batch_walk ex_mem_walk ?h [entries ?h ! 1, zero_entry] ?st"
    using commit_walk_seq_window [OF a1 a2 a3, of ex_batch_walk ?h "[entries ?h ! 1, zero_entry]" ?st] a4
    by (subst es) blast
  have stop: "commit_slots ex_env ex_batch_walk ex_mem_walk ?h [entries ?h ! 1, zero_entry] ?st =
      ((True, Some errBatchSeqComplete), ?st)"
    using commit_walk_seq_window [OF b1 b2 b3, of ex_batch_walk ?h "[zero_entry]" ?st] b4
    by blast
  have "fst (Commit ex_env ex_batch_walk ex_db) \<noteq> Some errBatchSeqComplete"
    using commit_walk_seq_window [OF b1 b2 b3, of ex_batch_walk] s by blast
  moreover have "fst (Commit ex_env ex_batch_walk ex_db) = None"
    by code_simp
  ultimately show ?thesis
    using a1 a2 a3 a4 b1 b2 b3 b4 s skip stop by simp
qed

text \<open>
  C10. The spec has the delete counter incremented for every staged delete entry whose hash
  passes the filter. The walk does not come to every such entry: the memdb callback returns at
  a delete whose key is not found. With \<open>Delete a\<close> and \<open>Delete b\<close> staged under the sequence
  numbers 8 and 9, both hashes passing the filter and neither key in the index, the commit
  returns nil and \<open>Dels\<close> has gone up by one, not by two.
\<close>

theorem Dels_misses_later_delete_counterexample:
  "mem ex_batch_del2 = Some ex_mem_del2 \<and>
   batchSeq ex_batch_del2 = 7 \<and> Len ex_batch_del2 = 2 \<and>
   length (table ex_mem_del2) = 2 \<and>
   parseInternalKey (m_key (table ex_mem_del2 ! 0)) = ([97], 8, True, 0, None) \<and>
   parseInternalKey (m_key (table ex_mem_del2 ! 1)) = ([98], 9, True, 0, None) \<and>
   (ucast (db_hash ex_env [97]) :: u64) \<in> db_filter ex_db_del2 \<and>
   (ucast (db_hash ex_env [98]) :: u64) \<in> db_filter ex_db_del2 \<and>
   fst (Commit ex_env ex_batch_del2 ex_db_del2) = None \<and>
   Dels (snd (Commit ex_env ex_batch_del2 ex_db_del2)) = Dels ex_db_del2 + 1"
  by code_simp

text \<open>
  C10, as the code has it. Take a staged delete entry that the slot loop of the walk comes
  to: its slot is occupied and read, its internal key parses with the delete flag set and a
  sequence number of this batch, and the presence filter answers true for its hash. Then the
  delete counter goes up by one whatever the lookup in the index finds. When the lookup
  finds no such key (the filter gave a false positive), the callback returns there and
  nothing but the counter has changed: no slot is cleared and \<open>db_count\<close> is as before. A
  commit that returns nil has added the counter to \<open>Dels\<close>. The example that follows is a
  commit in which \<open>Dels\<close> goes up by one while no slot is cleared, nothing is freed and
  \<open>db_count\<close> stays.
\<close>

theorem Dels_counts_filter_hits:
  assumes "e_kvOffset memsl \<noteq> 0"
    and "mem_readKeyValue env m memsl = Inr (ik, val)"
    and "parseInternalKey ik = (key, sq, True, ex, perr)"
    and "\<not> sq \<le> batchSeq b" and "\<not> sq > batchSeq b + of_nat (Len b)"
    and "(ucast (db_hash env key) :: u64) \<in> db_filter (c_db st)"
  shows "delCount (snd (delete_path env (db_hash env key) key st)) = delCount st + 1 \<and>
         commit_slots env b m memb (memsl # rest) st =
           (case delete_path env (db_hash env key) key st of
              (Some r, st1) \<Rightarrow> (r, st1)
            | (None, st1) \<Rightarrow> commit_slots env b m memb rest st1) \<and>
         (\<forall>p. forEachBucket (buckets (c_db st) (db_bucketIndex env (c_db st) (db_hash env key)))
                 (del_cb env (c_db st) (db_hash env key) key) 0
                 ((0, zero_bucketHandle env), - 1) = (None, (p, - 1)) \<longrightarrow>
              commit_slots env b m memb (memsl # rest) st =
                ((False, None), st\<lparr>delCount := delCount st + 1\<rparr>)) \<and>
         (\<forall>db db'. commit env b db = (None, db') \<and> mem b = Some m \<longrightarrow>
            (\<exists>st'. commit_walk env b m (mem_bucketIndex env m (firstKeyHash b))
                      \<lparr>c_db = db, delCount = 0, putCount = 0, c_bh = None, originalB = None,
                       entryIdx = 0, deferred = []\<rparr> = (None, st') \<and>
                    Dels db' = Dels db + delCount st' \<and> db_count db' = db_count (c_db st')))"
proof -
  have pe: "perr = None" using parse_no_error[OF assms(3)] .
  have step: "commit_slots env b m memb (memsl # rest) st =
           (case delete_path env (db_hash env key) key st of
              (Some r, st1) \<Rightarrow> (r, st1)
            | (None, st1) \<Rightarrow> commit_slots env b m memb rest st1)"
    using assms(1-5) pe by (simp add: Let_def)
  have nf: "commit_slots env b m memb (memsl # rest) st =
                ((False, None), st\<lparr>delCount := delCount st + 1\<rparr>)"
    if "forEachBucket (buckets (c_db st) (db_bucketIndex env (c_db st) (db_hash env key)))
                 (del_cb env (c_db st) (db_hash env key) key) 0
                 ((0, zero_bucketHandle env), - 1) = (None, (p, - 1))" for p
    unfolding step delete_path_not_found[OF assms(6) that] by simp
  show ?thesis
    using delete_path_counts[OF assms(6)] step nf commit_adds_delCount by blast
qed

theorem Dels_counts_filter_hits_witness:
  "e_kvOffset (entries (hd (ex_chain ex_mem_del 0)) ! 0) \<noteq> 0 \<and>
   mem_readKeyValue ex_env ex_mem_del (entries (hd (ex_chain ex_mem_del 0)) ! 0) =
     Inr (ex_ikey [97] 8 True, []) \<and>
   parseInternalKey (ex_ikey [97] 8 True) = ([97], 8, True, 0, None) \<and>
   \<not> 8 \<le> batchSeq ex_batch_del \<and>
   \<not> 8 > batchSeq ex_batch_del + of_nat (Len ex_batch_del) \<and>
   (ucast (db_hash ex_env [97]) :: u64) \<in> db_filter ex_db_del \<and>
   mem ex_batch_del = Some ex_mem_del \<and>
   fst (Commit ex_env ex_batch_del ex_db_del) = None \<and>
   Dels (snd (Commit ex_env ex_batch_del ex_db_del)) = Dels ex_db_del + 1 \<and>
   db_count (snd (Commit ex_env ex_batch_del ex_db_del)) = db_count ex_db_del \<and>
   buckets (snd (Commit ex_env ex_batch_del ex_db_del)) 0 = buckets ex_db_del 0 \<and>
   freed (snd (Commit ex_env ex_batch_del ex_db_del)) = []"
proof -
  let ?sl = "entries (hd (ex_chain ex_mem_del 0)) ! 0"
  let ?st = "\<lparr>c_db = ex_db_del, delCount = 0, putCount = 0, c_bh = None, originalB = None,
      entryIdx = 0, deferred = []\<rparr>"
  have a1: "e_kvOffset ?sl \<noteq> 0"
    and a2: "mem_readKeyValue ex_env ex_mem_del ?sl = Inr (ex_ikey [97] 8 True, [])"
    and a3: "parseInternalKey (ex_ikey [97] 8 True) = ([97], 8, True, 0, None)"
    and a4: "\<not> 8 \<le> batchSeq ex_batch_del"
    and a5: "\<not> 8 > batchSeq ex_batch_del + of_nat (Len ex_batch_del)"
    and a6: "(ucast (db_hash ex_env [97]) :: u64) \<in> db_filter (c_db ?st)"
    and m: "mem ex_batch_del = Some ex_mem_del"
    by code_simp+
  have run: "fst (Commit ex_env ex_batch_del ex_db_del) = None"
    and cnt: "db_count (snd (Commit ex_env ex_batch_del ex_db_del)) = db_count ex_db_del"
    and bk: "buckets (snd (Commit ex_env ex_batch_del ex_db_del)) 0 = buckets ex_db_del 0"
    and fr: "freed (snd (Commit ex_env ex_batch_del ex_db_del)) = []"
    and dl: "Dels (snd (Commit ex_env ex_batch_del ex_db_del)) = Dels ex_db_del + 1"
    by code_simp+
  have "delCount (snd (delete_path ex_env (db_hash ex_env [97]) [97] ?st)) = delCount ?st + 1"
    using Dels_counts_filter_hits [OF a1 a2 a3 a4 a5 a6] by blast
  with a1 a2 a3 a4 a5 a6 m run cnt bk fr dl show ?thesis by simp
qed

section \<open>Claims on the writer gate\<close>

text \<open>
  C4. The spec has the writer gate released by the first batch's \<^verbatim>\<open>Abort\<close> or \<^verbatim>\<open>Commit\<close>.
  \<^verbatim>\<open>Commit\<close> does not release it: after \<^verbatim>\<open>Write\<close> and \<^verbatim>\<open>Commit\<close> of the example
  batch, both without error, the token is still in the channel and a second \<^verbatim>\<open>Write\<close>
  blocks.
\<close>

theorem writer_gate_counterexample:
  "writeLockC ex_db = 0 \<and>
   Write ex_env ex_ord3 ex_batch3 ex_db \<noteq> None \<and>
   fst (Commit ex_env ex_batch3_written ex_db3_written) = None \<and>
   writeLockC (snd (Commit ex_env ex_batch3_written ex_db3_written)) = 1 \<and>
   Write ex_env ex_ord3 ex_batch3 (snd (Commit ex_env ex_batch3_written ex_db3_written)) = None"
  by code_simp

text \<open>
  C4, as the code has it. A \<^verbatim>\<open>Write\<close> that proceeds found the writer gate free and
  leaves it held, whether it returns an error or not. While it is held every \<^verbatim>\<open>Write\<close>
  blocks. \<^verbatim>\<open>Commit\<close> leaves it as it is. So in every run of calls that starts after
  that \<^verbatim>\<open>Write\<close> and has no \<^verbatim>\<open>Abort\<close> in it, none of the calls that went through is
  a \<^verbatim>\<open>Write\<close>, and at its end the token is still in the channel and a \<^verbatim>\<open>Write\<close>
  blocks. An \<^verbatim>\<open>Abort\<close> that returns takes the token out, whichever batch calls it, and
  leaves the channel alone when it panics; after it took the token a \<^verbatim>\<open>Write\<close> proceeds.
  A run is a sequence of calls, one at a time; a call that blocks is the result \<open>None\<close>.
\<close>

theorem writer_gate_held_until_Abort:
  assumes "Write env ord b db = Some (r, b', db')"
  shows "writeLockC db = 0 \<and> writeLockC db' = 1 \<and>
         (\<forall>ord2 b2. Write env ord2 b2 db' = None) \<and>
         (\<forall>bc rc dc. Commit env bc db' = (rc, dc) \<longrightarrow>
            writeLockC dc = 1 \<and> (\<forall>ord2 b2. Write env ord2 b2 dc = None)) \<and>
         (\<forall>cs d. run_calls env cs db' = Some d \<and> (\<forall>c \<in> set cs. \<not> is_Abort c) \<longrightarrow>
            writeLockC d = 1 \<and> (\<forall>c \<in> set cs. \<not> is_Write c) \<and>
            (\<forall>ord2 b2. Write env ord2 b2 d = None)) \<and>
         (\<forall>d ba ra ba' da. Abort ba d = Some (ra, ba', da) \<longrightarrow>
            writeLockC da = (if ra = None then writeLockC d - 1 else writeLockC d)) \<and>
         (\<forall>d ba ba' da. writeLockC d = 1 \<and> Abort ba d = Some (None, ba', da) \<longrightarrow>
            writeLockC da = 0 \<and> (\<forall>ord2 b2. Write env ord2 b2 da \<noteq> None))"
proof -
  from Write_unfold[OF assms] have g: "writeLockC db = 0" "writeLockC db' = 1"
    by auto
  have c: "writeLockC dc = 1 \<and> (\<forall>ord2 b2. Write env ord2 b2 dc = None)"
    if "Commit env bc db' = (rc, dc)" for bc rc dc
    using Commit_gate[OF that] g(2) Write_blocks by simp
  have rn: "writeLockC d = 1 \<and> (\<forall>c \<in> set cs. \<not> is_Write c) \<and>
            (\<forall>ord2 b2. Write env ord2 b2 d = None)"
    if "run_calls env cs db' = Some d \<and> (\<forall>c \<in> set cs. \<not> is_Abort c)" for cs d
    using held_run[OF g(2), of env cs d] that Write_blocks by simp
  have ag: "writeLockC da = (if ra = None then writeLockC d - 1 else writeLockC d)"
    if "Abort ba d = Some (ra, ba', da)" for d ba ra ba' da
    using Abort_gate[OF that] by simp
  have a: "writeLockC da = 0 \<and> (\<forall>ord2 b2. Write env ord2 b2 da \<noteq> None)"
    if "writeLockC d = 1 \<and> Abort ba d = Some (None, ba', da)" for d ba ba' da
    using Abort_releases[of ba d ba' da] that Write_proceeds by simp
  show ?thesis
    using g Write_blocks[OF g(2)] c rn ag a by blast
qed

theorem writer_gate_held_until_Abort_witness:
  "Write ex_env ex_ord3 ex_batch3 ex_db = Some (None, ex_batch3_written, ex_db3_written) \<and>
   writeLockC ex_db3_written = 1 \<and>
   Write ex_env ex_ord3 ex_batch3 ex_db3_written = None \<and>
   writeLockC (snd (Commit ex_env ex_batch3_written ex_db3_written)) = 1 \<and>
   (\<exists>d. run_calls ex_env [CallCommit ex_batch3_written, CallCommit ex_batch] ex_db3_written =
           Some d \<and> writeLockC d = 1 \<and> Write ex_env ex_ord3 ex_batch3 d = None) \<and>
   run_calls ex_env [CallCommit ex_batch3_written, CallWrite ex_ord3 ex_batch3] ex_db3_written =
     None \<and>
   (\<exists>ba' da. Abort ex_batch3_written (snd (Commit ex_env ex_batch3_written ex_db3_written)) =
               Some (None, ba', da) \<and> writeLockC da = 0 \<and>
             Write ex_env ex_ord3 ex_batch3 da \<noteq> None) \<and>
   (\<exists>ba' da. Abort ex_batch ex_db3_written = Some (None, ba', da) \<and> writeLockC da = 0 \<and>
             Write ex_env ex_ord3 ex_batch3 da \<noteq> None)"
proof -
  have "case Write ex_env ex_ord3 ex_batch3 ex_db of
          Some (None, b', db') \<Rightarrow> True | _ \<Rightarrow> False"
    by code_simp
  then obtain b' db' where "Write ex_env ex_ord3 ex_batch3 ex_db = Some (None, b', db')"
    by (auto split: option.splits prod.splits)
  then have run: "Write ex_env ex_ord3 ex_batch3 ex_db =
      Some (None, ex_batch3_written, ex_db3_written)"
    by (simp add: ex_batch3_written_def ex_db3_written_def)
  note g = writer_gate_held_until_Abort [OF run]
  obtain rc dc where cm: "Commit ex_env ex_batch3_written ex_db3_written = (rc, dc)"
    by (metis prod.exhaust)
  with g have dc: "writeLockC dc = 1" by blast
  obtain d where rn: "run_calls ex_env [CallCommit ex_batch3_written, CallCommit ex_batch]
      ex_db3_written = Some d"
    by simp
  have na: "\<forall>c \<in> set [CallCommit ex_batch3_written, CallCommit ex_batch]. \<not> is_Abort c"
    by simp
  from g rn na have d: "writeLockC d = 1 \<and> Write ex_env ex_ord3 ex_batch3 d = None"
    by blast
  have blocked: "run_calls ex_env [CallCommit ex_batch3_written, CallWrite ex_ord3 ex_batch3]
      ex_db3_written = None"
    using g cm by (simp add: Write_blocks)
  have "case Abort ex_batch3_written (snd (Commit ex_env ex_batch3_written ex_db3_written)) of
          Some (None, ba', da) \<Rightarrow> True | _ \<Rightarrow> False"
    by code_simp
  then obtain ba' da where ab: "Abort ex_batch3_written dc = Some (None, ba', da)"
    using cm by (auto split: option.splits prod.splits)
  with g dc have a1: "writeLockC da = 0 \<and> Write ex_env ex_ord3 ex_batch3 da \<noteq> None"
    by blast
  have "case Abort ex_batch ex_db3_written of
          Some (None, ba', da) \<Rightarrow> True | _ \<Rightarrow> False"
    by code_simp
  then obtain fa' fd where fb: "Abort ex_batch ex_db3_written = Some (None, fa', fd)"
    by (auto split: option.splits prod.splits)
  from g have g1: "writeLockC ex_db3_written = 1" by blast
  with g fb have a2: "writeLockC fd = 0 \<and> Write ex_env ex_ord3 ex_batch3 fd \<noteq> None"
    by blast
  from run g cm dc rn d blocked ab a1 fb a2 show ?thesis by auto
qed

end
